theory Spec2Isabelle
  imports Complex_Main "HOL-Library.Multiset" "HOL-Library.Word"
begin

section \<open>JavaScript values and strings\<close>

text \<open>
  A JavaScript string is a sequence of UTF-16 code units. \<open>lit\<close> turns an ASCII literal
  of the source into such a sequence.
\<close>

type_synonym unit16 = "16 word"

type_synonym jsstring = "unit16 list"

definition lit :: "string \<Rightarrow> jsstring" where
  "lit s = map (\<lambda>c. of_nat (of_char c)) s"

text \<open>
  The cells of a fetched sheet are JSON values; the request asks for formatted values,
  which arrive as text. The model keeps the values the code tells apart: \<open>undefined\<close>
  (also what reading an array beyond its length yields), \<open>null\<close>, the booleans and
  strings.
\<close>

datatype jsval = JUndefined | JNull | JBool bool | JStr jsstring

text \<open>JavaScript truthiness, as used by \<open>||\<close>, \<open>!\<close> and \<open>if\<close>.\<close>

fun truthy :: "jsval \<Rightarrow> bool" where
  "truthy JUndefined = False"
| "truthy JNull = False"
| "truthy (JBool b) = b"
| "truthy (JStr s) = (s \<noteq> [])"

text \<open>\<open>a || b\<close>\<close>

definition js_or :: "jsval \<Rightarrow> jsval \<Rightarrow> jsval" where
  "js_or a b = (if truthy a then a else b)"

text \<open>\<open>String(v)\<close>\<close>

fun js_String :: "jsval \<Rightarrow> jsstring" where
  "js_String JUndefined = lit ''undefined''"
| "js_String JNull = lit ''null''"
| "js_String (JBool b) = (if b then lit ''true'' else lit ''false'')"
| "js_String (JStr s) = s"

text \<open>
  The code units \<open>String.prototype.trim\<close> strips: the white space of the language (TAB,
  VT, FF, the byte order mark U+FEFF and the Unicode space separators U+0020, U+00A0,
  U+1680, U+2000 to U+200A, U+202F, U+205F, U+3000) and its line terminators (LF, CR,
  U+2028, U+2029).
\<close>

definition isSpace :: "unit16 \<Rightarrow> bool" where
  "isSpace u =
     (u \<in> set [0x0009, 0x000A, 0x000B, 0x000C, 0x000D, 0x0020, 0x00A0, 0x1680,
                0x2028, 0x2029, 0x202F, 0x205F, 0x3000, 0xFEFF] \<or>
      (0x2000 \<le> u \<and> u \<le> 0x200A))"

definition trim :: "jsstring \<Rightarrow> jsstring" where
  "trim s = rev (dropWhile isSpace (rev (dropWhile isSpace s)))"

text \<open>
  \<open>String.prototype.toLowerCase\<close> and \<open>toUpperCase\<close> apply the case mappings of the
  Unicode character database, tables of the language runtime. The model takes the two
  functions as a parameter \<open>R\<close>, so that what is proved holds for whatever the tables say.
\<close>

record casing =
  toLowerCase :: "jsstring \<Rightarrow> jsstring"
  toUpperCase :: "jsstring \<Rightarrow> jsstring"

text \<open>\<open>xs[i]\<close>: reading beyond the end of an array yields \<open>undefined\<close>.\<close>

definition js_index :: "jsval list \<Rightarrow> int \<Rightarrow> jsval" where
  "js_index xs i = (if 0 \<le> i \<and> i < int (length xs) then xs ! nat i else JUndefined)"

text \<open>\<open>xs.indexOf(x)\<close>: the first position of \<open>x\<close>, or \<open>-1\<close>.\<close>

fun indexOf :: "jsstring list \<Rightarrow> jsstring \<Rightarrow> int" where
  "indexOf [] x = -1"
| "indexOf (h # hs) x =
     (if h = x then 0 else (let i = indexOf hs x in if i = -1 then -1 else i + 1))"

subsection \<open>Division of numbers\<close>

text \<open>
  \<open>a / b\<close> on two counters. JavaScript numbers are IEEE 754 binary64 values, and the
  quotient is the exact quotient rounded to the nearest such value, ties to the even
  significand. The model holds a number as the rational it denotes. The two loops scale
  numerator and denominator by powers of two until the integer quotient has exactly 53
  bits; the remainder then decides the rounding. Counters are below \<open>2^53\<close>, so they
  are themselves exact and the quotient neither overflows nor becomes subnormal. The
  code divides only by a non-zero \<open>total\<close>; for a zero divisor JavaScript yields
  \<open>NaN\<close> or \<open>Infinity\<close>, which no rational denotes, and the model says 0.
\<close>

function scaleUp :: "int \<Rightarrow> int \<Rightarrow> nat \<Rightarrow> int \<times> nat" where
  "scaleUp n d k = (if 0 < n \<and> n < d * 2 ^ 52 then scaleUp (2 * n) d (Suc k) else (n, k))"
  by pat_completeness auto
termination
  by (relation "measure (\<lambda>(n, d, k). nat (d * 2 ^ 52 - n))") auto

function scaleDown :: "int \<Rightarrow> int \<Rightarrow> nat \<Rightarrow> int \<times> nat" where
  "scaleDown n d k = (if 0 < d \<and> d * 2 ^ 53 \<le> n then scaleDown n (2 * d) (Suc k) else (d, k))"
  by pat_completeness auto
termination
  by (relation "measure (\<lambda>(n, d, k). nat (n - d * 2 ^ 53 + 1))") auto

declare scaleUp.simps [simp del] scaleDown.simps [simp del]

definition js_divide :: "nat \<Rightarrow> nat \<Rightarrow> rat" where
  "js_divide a b =
     (if a = 0 \<or> b = 0 then 0
      else
        let (n, up) = scaleUp (int a) (int b) 0;
            (d, down) = scaleDown n (int b) 0;
            q = n div d;
            r = n mod d;
            m = (if d < 2 * r \<or> (2 * r = d \<and> odd q) then q + 1 else q)
        in of_int m * 2 ^ down / 2 ^ up)"

section \<open>Helpers of server.js\<close>

definition truthyValues :: "jsstring list" where
  "truthyValues = [lit ''true'', lit ''1'', lit ''yes'', lit ''si'']"

definition isTruthy :: "casing \<Rightarrow> jsval \<Rightarrow> bool" where
  "isTruthy R v =
     (toLowerCase R (trim (js_String (js_or v (JStr [])))) \<in> set truthyValues)"

definition normalizeHeader :: "casing \<Rightarrow> jsval \<Rightarrow> jsstring" where
  "normalizeHeader R header = toLowerCase R (trim (js_String (js_or header (JStr []))))"

definition isRowEmpty :: "jsval list \<Rightarrow> bool" where
  "isRowEmpty row = list_all (\<lambda>cell. trim (js_String (js_or cell (JStr []))) = []) row"

text \<open>The closure \<open>getValue\<close> of \<open>buildSummary\<close>, with the normalized header row
  it captures as first argument.\<close>

definition getValue :: "jsstring list \<Rightarrow> jsval list \<Rightarrow> jsstring \<Rightarrow> jsval" where
  "getValue headers row name =
     (let idx = indexOf headers name in
      if idx = -1 then JStr [] else js_or (js_index row idx) (JStr []))"

section \<open>The country-count object\<close>

text \<open>
  \<open>countryCounts\<close> is a plain object used as a dictionary. Its own properties are kept
  in creation order; \<open>Object.entries\<close> lists the keys that are array indices first, in
  ascending numeric order, and then the other keys in creation order. Every key stored
  comes out of \<open>toUpperCase\<close>, which never yields an ASCII lower-case letter, so no key
  meets a property inherited from \<open>Object.prototype\<close>, whose names all contain one.
\<close>

type_synonym counts = "(jsstring \<times> nat) list"

text \<open>\<open>obj[k] || 0\<close>\<close>

definition getCount :: "counts \<Rightarrow> jsstring \<Rightarrow> nat" where
  "getCount m k = (case map_of m k of None \<Rightarrow> 0 | Some c \<Rightarrow> c)"

text \<open>\<open>obj[k] = v\<close>: an existing property keeps its place, a new one is added last.\<close>

fun setProp :: "counts \<Rightarrow> jsstring \<Rightarrow> nat \<Rightarrow> counts" where
  "setProp [] k v = [(k, v)]"
| "setProp ((k', v') # m) k v =
     (if k' = k then (k, v) # m else (k', v') # setProp m k v)"

definition isDigit :: "unit16 \<Rightarrow> bool" where
  "isDigit u = (0x30 \<le> u \<and> u \<le> 0x39)"

definition digitsValue :: "jsstring \<Rightarrow> int" where
  "digitsValue s = foldl (\<lambda>n u. 10 * n + (uint u - 48)) 0 s"

text \<open>An array index is a canonical decimal numeral below \<open>2^32 - 1\<close>.\<close>

definition isArrayIndex :: "jsstring \<Rightarrow> bool" where
  "isArrayIndex s =
     (s \<noteq> [] \<and> list_all isDigit s \<and> (length s = 1 \<or> hd s \<noteq> 0x30) \<and>
      digitsValue s < 4294967295)"

definition Object_entries :: "counts \<Rightarrow> counts" where
  "Object_entries m =
     sort_key (\<lambda>e. digitsValue (fst e)) (filter (\<lambda>e. isArrayIndex (fst e)) m) @
     filter (\<lambda>e. \<not> isArrayIndex (fst e)) m"

section \<open>The summary\<close>

record country =
  code :: jsstring
  count :: nat

text \<open>
  \<open>marketingRate\<close> is the rational the stored binary64 number denotes. \<open>updatedAt\<close> is
  the ISO text of the clock reading taken when the summary is built.
\<close>

record summary =
  total :: nat
  marketingYes :: nat
  marketingRate :: rat
  countries :: "country list"
  unknownCount :: nat
  topCountry :: "country option"
  updatedAt :: jsstring

text \<open>The four variables the row loop of \<open>buildSummary\<close> updates.\<close>

record tally =
  n_total :: nat
  n_marketingYes :: nat
  n_unknownCount :: nat
  countryCounts :: counts

definition tally0 :: tally where
  "tally0 = \<lparr>n_total = 0, n_marketingYes = 0, n_unknownCount = 0, countryCounts = []\<rparr>"

text \<open>\<open>String(countryRaw || 'unknown').trim().toUpperCase()\<close>\<close>

definition countryOf :: "casing \<Rightarrow> jsstring list \<Rightarrow> jsval list \<Rightarrow> jsstring" where
  "countryOf R headers row =
     toUpperCase R
       (trim (js_String (js_or (getValue headers row (lit ''ip_country'')) (JStr (lit ''unknown'')))))"

text \<open>One iteration of the loop over \<open>rows.slice(1)\<close>.\<close>

definition processRow :: "casing \<Rightarrow> jsstring list \<Rightarrow> tally \<Rightarrow> jsval list \<Rightarrow> tally" where
  "processRow R headers t row =
     (if row = [] \<or> isRowEmpty row then t
      else
        let email = getValue headers row (lit ''email'');
            timestamp = getValue headers row (lit ''timestamp'')
        in
          if trim (js_String (js_or email (JStr []))) = [] \<and>
             trim (js_String (js_or timestamp (JStr []))) = []
          then t
          else
            let t1 = t\<lparr>n_total := n_total t + 1\<rparr>;
                marketing = getValue headers row (lit ''acepta_marketing'');
                t2 = (if isTruthy R marketing
                      then t1\<lparr>n_marketingYes := n_marketingYes t1 + 1\<rparr> else t1);
                country = countryOf R headers row
            in
              if country = [] \<or> country = lit ''UNKNOWN''
              then t2\<lparr>n_unknownCount := n_unknownCount t2 + 1\<rparr>
              else t2\<lparr>countryCounts :=
                        setProp (countryCounts t2) country
                          (getCount (countryCounts t2) country + 1)\<rparr>)"

definition emptySummary :: "jsstring \<Rightarrow> summary" where
  "emptySummary stamp =
     \<lparr>total = 0, marketingYes = 0, marketingRate = 0, countries = [], unknownCount = 0,
      topCountry = None, updatedAt = stamp\<rparr>"

text \<open>\<open>Object.entries(countryCounts).map(...)\<close> followed by the stable
  \<open>sort((a, b) => b.count - a.count)\<close>.\<close>

definition countriesOf :: "counts \<Rightarrow> country list" where
  "countriesOf m =
     sort_key (\<lambda>e. - int (count e))
       (map (\<lambda>(c, n). \<lparr>code = c, count = n\<rparr>) (Object_entries m))"

text \<open>Lines 79 to 152 of \<open>buildSummary\<close>: the summary of a fetched row set.\<close>

definition summarize :: "casing \<Rightarrow> jsval list list \<Rightarrow> jsstring \<Rightarrow> summary" where
  "summarize R rows stamp =
     (if rows = [] then emptySummary stamp
      else
        let headers = map (normalizeHeader R) (hd rows);
            t = foldl (processRow R headers) tally0 (drop 1 rows);
            cs = countriesOf (countryCounts t)
        in \<lparr>total = n_total t,
            marketingYes = n_marketingYes t,
            marketingRate =
              (if n_total t \<noteq> 0 then js_divide (n_marketingYes t) (n_total t) else 0),
            countries = cs,
            unknownCount = n_unknownCount t,
            topCountry = (case cs of [] \<Rightarrow> None | c # _ \<Rightarrow> Some c),
            updatedAt = stamp\<rparr>)"

section \<open>The specification's notions\<close>

text \<open>
  What the specification says about rows, written without the helpers of the code. A
  text is blank when nothing but white space is in it. The text of a cell is the cell
  itself when it is a string; \<open>undefined\<close>, \<open>null\<close> and \<open>false\<close> have none, and \<open>true\<close>
  reads \<open>true\<close>.
\<close>

definition blankText :: "jsstring \<Rightarrow> bool" where
  "blankText s = list_all isSpace s"

fun cellText :: "jsval \<Rightarrow> jsstring" where
  "cellText (JStr s) = s"
| "cellText (JBool b) = (if b then lit ''true'' else [])"
| "cellText JNull = []"
| "cellText JUndefined = []"

text \<open>A text without the white space before its first and after its last other
  character.\<close>

fun stripStart :: "jsstring \<Rightarrow> jsstring" where
  "stripStart [] = []"
| "stripStart (u # us) = (if isSpace u then stripStart us else u # us)"

fun stripEnd :: "jsstring \<Rightarrow> jsstring" where
  "stripEnd [] = []"
| "stripEnd (u # us) = (let r = stripEnd us in if r = [] \<and> isSpace u then [] else u # r)"

definition trimmed :: "jsstring \<Rightarrow> jsstring" where
  "trimmed s = stripEnd (stripStart s)"

text \<open>The column a header cell names: its text, trimmed and in lower case.\<close>

definition columnName :: "casing \<Rightarrow> jsval \<Rightarrow> jsstring" where
  "columnName R h = toLowerCase R (trimmed (cellText h))"

text \<open>The field of a row under the first column of that name; empty when no column
  has the name or the row ends before it.\<close>

fun fieldText :: "casing \<Rightarrow> jsval list \<Rightarrow> jsval list \<Rightarrow> jsstring \<Rightarrow> jsstring" where
  "fieldText R [] row name = []"
| "fieldText R (h # hs) [] name = []"
| "fieldText R (h # hs) (c # cs) name =
     (if columnName R h = name then cellText c else fieldText R hs cs name)"

text \<open>A qualifying record: a row with at least one non-blank cell and a non-blank email
  or timestamp field. The first argument is the header row as fetched.\<close>

definition qualifying :: "casing \<Rightarrow> jsval list \<Rightarrow> jsval list \<Rightarrow> bool" where
  "qualifying R header row =
     (list_ex (\<lambda>cell. \<not> blankText (cellText cell)) row \<and>
      (\<not> blankText (fieldText R header row (lit ''email'')) \<or>
       \<not> blankText (fieldText R header row (lit ''timestamp''))))"

text \<open>The consent field, trimmed and in lower case; the country field, trimmed and in
  upper case.\<close>

definition consentText :: "casing \<Rightarrow> jsval list \<Rightarrow> jsval list \<Rightarrow> jsstring" where
  "consentText R header row =
     toLowerCase R (trimmed (fieldText R header row (lit ''acepta_marketing'')))"

definition countryKey :: "casing \<Rightarrow> jsval list \<Rightarrow> jsval list \<Rightarrow> jsstring" where
  "countryKey R header row =
     toUpperCase R (trimmed (fieldText R header row (lit ''ip_country'')))"

text \<open>Two texts the upper-case mapping does not tell apart: they differ, if at all, in
  the case of their letters.\<close>

definition sameLetters :: "casing \<Rightarrow> jsstring \<Rightarrow> jsstring \<Rightarrow> bool" where
  "sameLetters R a b = (toUpperCase R a = toUpperCase R b)"

text \<open>A text that neither starts nor ends with white space, and is not empty.\<close>

definition solid :: "jsstring \<Rightarrow> bool" where
  "solid s = (s \<noteq> [] \<and> \<not> isSpace (hd s) \<and> \<not> isSpace (last s))"

text \<open>
  What is assumed of the case mappings where a statement names a concrete text: on
  text of ASCII code units they change the letters \<open>A\<close> to \<open>Z\<close> and \<open>a\<close> to \<open>z\<close> and
  nothing else. The mappings of JavaScript do so.
\<close>

definition lowerAscii :: "unit16 \<Rightarrow> unit16" where
  "lowerAscii u = (if 0x41 \<le> u \<and> u \<le> 0x5A then u + 0x20 else u)"

definition upperAscii :: "unit16 \<Rightarrow> unit16" where
  "upperAscii u = (if 0x61 \<le> u \<and> u \<le> 0x7A then u - 0x20 else u)"

definition asciiFaithful :: "casing \<Rightarrow> bool" where
  "asciiFaithful R =
     (\<forall>s. list_all (\<lambda>u. u < 0x80) s \<longrightarrow>
          toLowerCase R s = map lowerAscii s \<and> toUpperCase R s = map upperAscii s)"

section \<open>Process state and the outside world\<close>

text \<open>The reason of a rejected promise.\<close>

datatype error = Rejected string

record cache_slot =
  data :: "summary option"
  fetchedAt :: int

text \<open>
  The module-level state: \<open>cache\<close> and \<open>cachedSheetTitle\<close>. Three more fields record
  what the process has done to the outside: the number of metadata requests
  (\<open>spreadsheets.get\<close>) and of value requests (\<open>spreadsheets.values.get\<close>) issued so
  far, and the lines written by \<open>console.error\<close>.
\<close>

record server =
  cache :: cache_slot
  cachedSheetTitle :: jsval
  metadataRequests :: nat
  valueRequests :: nat
  console :: "(jsstring \<times> error) list"

definition server0 :: server where
  "server0 = \<lparr>cache = \<lparr>data = None, fetchedAt = 0\<rparr>, cachedSheetTitle = JNull,
              metadataRequests = 0, valueRequests = 0, console = []\<rparr>"

definition CACHE_TTL_MS :: int where
  "CACHE_TTL_MS = 60 * 1000"

text \<open>
  The metadata of a spreadsheet, as far as \<open>getSheetTitle\<close> reads it: the optional
  list \<open>sheets\<close>, each sheet with its optional \<open>properties\<close>, of which the \<open>title\<close>
  value is kept (\<open>undefined\<close> when there is none).
\<close>

type_synonym metadata = "jsval option list option"

text \<open>\<open>metadata.data.sheets?.[0]?.properties?.title\<close>\<close>

definition firstTitle :: "metadata \<Rightarrow> jsval" where
  "firstTitle md =
     (case md of
        None \<Rightarrow> JUndefined
      | Some [] \<Rightarrow> JUndefined
      | Some (None # _) \<Rightarrow> JUndefined
      | Some (Some t # _) \<Rightarrow> t)"

text \<open>
  What one call of \<open>buildSummary\<close> meets outside the process: the reading of
  \<open>Date.now()\<close> on entry, the text of \<open>new Date().toISOString()\<close> when the summary is
  built, the outcome of a metadata request, and the outcome of a value request for a
  given range (\<open>values\<close> may be absent from the response). A call runs to its end
  before the next one starts.
\<close>

record env =
  clock :: int
  isoNow :: jsstring
  spreadsheets_get :: "error + metadata"
  values_get :: "jsstring \<Rightarrow> error + jsval list list option"

definition getSheetTitle :: "env \<Rightarrow> server \<Rightarrow> (error + jsval) \<times> server" where
  "getSheetTitle e st =
     (if truthy (cachedSheetTitle st) then (Inr (cachedSheetTitle st), st)
      else
        let st1 = st\<lparr>metadataRequests := metadataRequests st + 1\<rparr> in
        case spreadsheets_get e of
          Inl err \<Rightarrow> (Inl err, st1)
        | Inr md \<Rightarrow>
            let t = js_or (firstTitle md) JNull
            in (Inr t, st1\<lparr>cachedSheetTitle := t\<rparr>))"

definition fetchSheetRows :: "env \<Rightarrow> server \<Rightarrow> (error + jsval list list) \<times> server" where
  "fetchSheetRows e st =
     (case getSheetTitle e st of
        (Inl err, st1) \<Rightarrow> (Inl err, st1)
      | (Inr sheetTitle, st1) \<Rightarrow>
          let range = (if truthy sheetTitle then js_String sheetTitle @ lit ''!A1:Z''
                       else lit ''A1:Z'');
              st2 = st1\<lparr>valueRequests := valueRequests st1 + 1\<rparr>
          in case values_get e range of
               Inl err \<Rightarrow> (Inl err, st2)
             | Inr None \<Rightarrow> (Inr [], st2)
             | Inr (Some rows) \<Rightarrow> (Inr rows, st2))"

text \<open>\<open>cache.data && now - cache.fetchedAt < CACHE_TTL_MS\<close>\<close>

definition cacheFresh :: "int \<Rightarrow> cache_slot \<Rightarrow> bool" where
  "cacheFresh now c = (data c \<noteq> None \<and> now - fetchedAt c < CACHE_TTL_MS)"

definition buildSummary :: "casing \<Rightarrow> env \<Rightarrow> server \<Rightarrow> (error + summary) \<times> server" where
  "buildSummary R e st =
     (let now = clock e in
      case (if cacheFresh now (cache st) then data (cache st) else None) of
        Some cached \<Rightarrow> (Inr cached, st)
      | None \<Rightarrow>
          (case fetchSheetRows e st of
             (Inl err, st1) \<Rightarrow> (Inl err, st1)
           | (Inr rows, st1) \<Rightarrow>
               let s = summarize R rows (isoNow e)
               in (Inr s, st1\<lparr>cache := \<lparr>data = Some s, fetchedAt = now\<rparr>\<rparr>)))"

text \<open>The handler of \<open>GET /api/summary\<close>.\<close>

datatype body = SummaryJson summary | ErrorJson jsstring

record response =
  status :: nat
  body :: body

definition apiSummary :: "casing \<Rightarrow> env \<Rightarrow> server \<Rightarrow> response \<times> server" where
  "apiSummary R e st =
     (case buildSummary R e st of
        (Inr s, st1) \<Rightarrow> (\<lparr>status = 200, body = SummaryJson s\<rparr>, st1)
      | (Inl err, st1) \<Rightarrow>
          (\<lparr>status = 500, body = ErrorJson (lit ''Failed to load sheet data'')\<rparr>,
           st1\<lparr>console := console st1 @ [(lit ''Failed to load sheet data'', err)]\<rparr>))"

section \<open>Sample inputs\<close>

text \<open>
  A casing for the worked examples: the case mappings of JavaScript on the code units
  below U+0100 (the sharp s becomes \<open>SS\<close>, the micro sign and the y with diaeresis leave
  the range), the identity on the others.
\<close>

definition lowerLatin1 :: "unit16 \<Rightarrow> unit16" where
  "lowerLatin1 u =
     (if (0x41 \<le> u \<and> u \<le> 0x5A) \<or> (0xC0 \<le> u \<and> u \<le> 0xDE \<and> u \<noteq> 0xD7)
      then u + 0x20 else u)"

definition upperLatin1 :: "unit16 \<Rightarrow> jsstring" where
  "upperLatin1 u =
     (if (0x61 \<le> u \<and> u \<le> 0x7A) \<or> (0xE0 \<le> u \<and> u \<le> 0xFE \<and> u \<noteq> 0xF7)
      then [u - 0x20]
      else if u = 0xDF then [0x53, 0x53]
      else if u = 0xB5 then [0x039C]
      else if u = 0xFF then [0x0178]
      else [u])"

definition sampleCasing :: casing where
  "sampleCasing =
     \<lparr>toLowerCase = map lowerLatin1, toUpperCase = (\<lambda>s. concat (map upperLatin1 s))\<rparr>"

text \<open>
  A header row with stray case and spacing (a no-break space after \<open>Email\<close>), and eight
  data rows: two whose country differs only by case and spacing (a no-break space
  before \<open>mx\<close>), a blank one (one cell a no-break space), one without country, one with
  padded consent (a no-break space after \<open>SI\<close>), a short one, and two whose country
  is the letter e with acute accent, small and capital.
\<close>

definition sampleHeader :: "jsval list" where
  "sampleHeader =
     [JStr (lit ''Email'' @ [0xA0]), JStr (lit '' Timestamp ''),
      JStr (lit ''acepta_marketing''), JStr (lit ''ip_country'')]"

definition rowA :: "jsval list" where
  "rowA = [JStr (lit ''a@x.com''), JStr (lit ''t1''), JStr (lit ''true''), JStr (lit ''MX'')]"

definition rowB :: "jsval list" where
  "rowB = [JStr (lit ''b@x.com''), JStr (lit ''t2''), JStr (lit ''no''),
           JStr ([0xA0] @ lit ''mx'' @ lit '' '')]"

definition rowBlank :: "jsval list" where
  "rowBlank = [JStr [], JStr [0xA0], JStr (lit ''  ''), JStr []]"

definition rowC :: "jsval list" where
  "rowC = [JStr (lit ''c@x.com''), JStr (lit ''t3''), JStr (lit ''1''), JStr []]"

definition rowD :: "jsval list" where
  "rowD = [JStr (lit ''d@x.com''), JStr (lit ''t4''), JStr (lit '' SI'' @ [0xA0]),
           JStr (lit ''us'')]"

definition rowShort :: "jsval list" where
  "rowShort = [JNull, JStr (lit ''t5'')]"

definition rowE :: "jsval list" where
  "rowE = [JStr (lit ''e@x.com''), JStr (lit ''t6''), JStr (lit ''Yes''), JStr [0xE9]]"

definition rowF :: "jsval list" where
  "rowF = [JStr (lit ''f@x.com''), JStr (lit ''t7''), JStr (lit ''0''), JStr [0xC9]]"

definition sampleRows :: "jsval list list" where
  "sampleRows = [sampleHeader, rowA, rowB, rowBlank, rowC, rowD, rowShort, rowE, rowF]"

definition sampleEnv :: env where
  "sampleEnv =
     \<lparr>clock = 100000, isoNow = lit ''2024-01-01T00:01:40.000Z'',
      spreadsheets_get = Inr (Some [Some (JStr (lit ''Signups''))]),
      values_get = (\<lambda>range. if range = lit ''Signups!A1:Z'' then Inr (Some sampleRows)
                             else Inl (Rejected ''Unable to parse range''))\<rparr>"

text \<open>The same world ten seconds later.\<close>

definition laterEnv :: env where
  "laterEnv = sampleEnv\<lparr>clock := 110000, isoNow := lit ''2024-01-01T00:01:50.000Z''\<rparr>"

text \<open>A world, a hundred seconds after the first, whose value request is refused.\<close>

definition failingEnv :: env where
  "failingEnv =
     sampleEnv\<lparr>clock := 200000, values_get := (\<lambda>range. Inl (Rejected ''quota exceeded''))\<rparr>"

text \<open>A world whose spreadsheet reports no sheets.\<close>

definition untitledEnv :: env where
  "untitledEnv = sampleEnv\<lparr>spreadsheets_get := Inr (Some [])\<rparr>"

text \<open>The process after it has served \<open>sampleEnv\<close> once from its initial state.\<close>

definition servedOnce :: server where
  "servedOnce =
     \<lparr>cache = \<lparr>data = Some (summarize sampleCasing sampleRows (lit ''2024-01-01T00:01:40.000Z'')),
               fetchedAt = 100000\<rparr>,
      cachedSheetTitle = JStr (lit ''Signups''), metadataRequests = 1, valueRequests = 1,
      console = []\<rparr>"

text \<open>The process after its first title lookup in \<open>sampleEnv\<close>.\<close>

definition titledServer :: server where
  "titledServer = server0\<lparr>cachedSheetTitle := JStr (lit ''Signups''), metadataRequests := 1\<rparr>"


section \<open>Auxiliary facts\<close>

subsection \<open>Trimming\<close>

lemma dropWhile_skip: "list_all P xs \<Longrightarrow> dropWhile P (xs @ ys) = dropWhile P ys"
  by (induction xs) simp_all

lemma trim_pad:
  assumes "list_all isSpace w1" and "list_all isSpace w2"
  shows "trim (w1 @ s @ w2) = trim s"
proof -
  have front: "dropWhile isSpace (w1 @ s @ w2) = dropWhile isSpace (s @ w2)"
    using assms(1) by (rule dropWhile_skip)
  have tail: "dropWhile isSpace (rev (dropWhile isSpace (s @ w2))) =
              dropWhile isSpace (rev (dropWhile isSpace s))"
  proof (cases "list_all isSpace s")
    case True
    then have a: "dropWhile isSpace (s @ w2) = []" and b: "dropWhile isSpace s = []"
      using assms(2) by (simp_all add: list_all_iff dropWhile_eq_Nil_conv)
    show ?thesis unfolding a b by (rule refl)
  next
    case False
    then obtain x where "x \<in> set s" "\<not> isSpace x"
      by (auto simp: list_all_iff)
    then have "dropWhile isSpace (s @ w2) = dropWhile isSpace s @ w2"
      by (simp add: dropWhile_append1)
    moreover have "list_all isSpace (rev w2)"
      using assms(2) by (simp add: list_all_iff)
    ultimately show ?thesis
      by (simp add: dropWhile_skip)
  qed
  show ?thesis
    by (simp add: trim_def front tail)
qed

lemma trim_blank: "trim s = [] \<longleftrightarrow> list_all isSpace s"
proof
  assume "trim s = []"
  then have all: "\<forall>x \<in> set (dropWhile isSpace s). isSpace x"
    by (simp add: trim_def dropWhile_eq_Nil_conv)
  show "list_all isSpace s"
  proof (rule ccontr)
    assume "\<not> list_all isSpace s"
    then have ne: "dropWhile isSpace s \<noteq> []"
      by (simp add: dropWhile_eq_Nil_conv list_all_iff)
    then have "\<not> isSpace (hd (dropWhile isSpace s))"
      by (rule hd_dropWhile)
    moreover have "hd (dropWhile isSpace s) \<in> set (dropWhile isSpace s)"
      using ne by simp
    ultimately show False using all by blast
  qed
next
  assume "list_all isSpace s"
  then have d: "dropWhile isSpace s = []"
    by (simp add: dropWhile_eq_Nil_conv list_all_iff)
  show "trim s = []"
    unfolding trim_def d by simp
qed

lemma trim_core:
  assumes "s \<noteq> []" and "\<not> isSpace (hd s)" and "\<not> isSpace (last s)"
  shows "trim s = s"
proof -
  have a: "dropWhile isSpace s = s"
    using assms(1,2) by (cases s) simp_all
  have "rev s \<noteq> []" "\<not> isSpace (hd (rev s))"
    using assms(1,3) by (simp_all add: hd_rev)
  then have "dropWhile isSpace (rev s) = rev s"
    by (cases "rev s") simp_all
  with a show ?thesis
    by (simp add: trim_def)
qed

lemma stripStart_dropWhile: "stripStart s = dropWhile isSpace s"
  by (induction s) simp_all

lemma stripEnd_rev: "stripEnd t = rev (dropWhile isSpace (rev t))"
proof (induction t)
  case Nil
  show ?case by simp
next
  case (Cons u us)
  show ?case
  proof (cases "list_all isSpace us")
    case True
    then have "list_all isSpace (rev us)" by (simp add: list_all_iff)
    then have "dropWhile isSpace (rev us @ [u]) = dropWhile isSpace [u]"
      by (rule dropWhile_skip)
    moreover have "stripEnd us = []"
      using True by (simp add: Cons.IH dropWhile_eq_Nil_conv list_all_iff)
    ultimately show ?thesis by (simp add: Let_def)
  next
    case False
    then obtain x where x: "x \<in> set (rev us)" "\<not> isSpace x"
      by (auto simp: list_all_iff)
    then have "dropWhile isSpace (rev us @ [u]) = dropWhile isSpace (rev us) @ [u]"
      by (simp add: dropWhile_append1)
    moreover have "stripEnd us \<noteq> []"
      using x by (auto simp: Cons.IH dropWhile_eq_Nil_conv)
    ultimately show ?thesis by (simp add: Let_def Cons.IH)
  qed
qed

lemma trim_trimmed: "trim s = trimmed s"
  by (simp add: trim_def trimmed_def stripStart_dropWhile stripEnd_rev)

subsection \<open>Cells and fields\<close>

lemma lit_true_nonempty: "lit ''true'' \<noteq> []"
  by (simp add: lit_def)

lemma text_or: "js_String (js_or v (JStr [])) = cellText v"
  by (cases v) (simp_all add: js_or_def)

lemma normalizeHeader_columnName: "normalizeHeader R h = columnName R h"
  by (simp add: normalizeHeader_def columnName_def text_or trim_trimmed)

lemma indexOf_range: "- 1 \<le> indexOf hs x \<and> indexOf hs x < int (length hs)"
  by (induction hs) (auto simp: Let_def)

lemma indexOf_absent: "indexOf hs x = - 1 \<longleftrightarrow> x \<notin> set hs"
proof (induction hs)
  case Nil
  show ?case by simp
next
  case (Cons h hs)
  have "- 1 \<le> indexOf hs x" by (simp add: indexOf_range)
  with Cons show ?case by (auto simp: Let_def)
qed

lemma js_index_Suc: "0 \<le> i \<Longrightarrow> js_index row (i + 1) = js_index (tl row) i"
  by (cases row) (auto simp: js_index_def nat_add_distrib)

lemma getValue_Cons:
  "getValue (h # hs) row name =
     (if h = name then js_or (js_index row 0) (JStr []) else getValue hs (tl row) name)"
proof (cases "h = name")
  case True
  then show ?thesis by (simp add: getValue_def)
next
  case False
  show ?thesis
  proof (cases "indexOf hs name = - 1")
    case True
    with False show ?thesis by (simp add: getValue_def)
  next
    case absent: False
    then have "0 \<le> indexOf hs name"
      using indexOf_range [of hs name] by arith
    with False absent show ?thesis
      by (simp add: getValue_def Let_def js_index_Suc)
  qed
qed

lemma getValue_Nil: "getValue [] row name = JStr []"
  by (simp add: getValue_def)

lemma js_or_getValue: "js_or (getValue headers row name) (JStr []) = getValue headers row name"
  by (simp add: getValue_def Let_def js_or_def)

lemma getValue_text:
  "js_String (getValue (map (normalizeHeader R) header) row name) = fieldText R header row name"
proof (induction header arbitrary: row)
  case Nil
  show ?case by (simp add: getValue_Nil)
next
  case (Cons h hs)
  show ?case
  proof (cases row)
    case Nil
    have "js_String (getValue (map (normalizeHeader R) hs) [] name) = []"
      by (induction hs) (simp_all add: getValue_Nil getValue_Cons js_index_def js_or_def)
    then show ?thesis
      using Nil by (simp add: getValue_Cons js_index_def js_or_def)
  next
    case (Cons c cs)
    then show ?thesis
      using Cons.IH [of cs]
      by (simp add: getValue_Cons normalizeHeader_columnName js_index_def text_or)
  qed
qed

lemma getValue_falsy:
  "\<not> truthy (getValue headers row name) \<Longrightarrow> getValue headers row name = JStr []"
  by (auto simp: getValue_def Let_def js_or_def)

lemma field_empty:
  "fieldText R header row name = [] \<longleftrightarrow>
     \<not> truthy (getValue (map (normalizeHeader R) header) row name)"
proof -
  have "truthy v \<longleftrightarrow> js_String v \<noteq> []" if "truthy v \<or> v = JStr []" for v
    using that by (cases v) (auto simp: lit_true_nonempty)
  moreover have "truthy (getValue (map (normalizeHeader R) header) row name) \<or>
      getValue (map (normalizeHeader R) header) row name = JStr []"
    using getValue_falsy by blast
  ultimately show ?thesis
    unfolding getValue_text [symmetric] by blast
qed

lemma field_blank:
  "trim (js_String (js_or (getValue (map (normalizeHeader R) header) row name) (JStr []))) = []
     \<longleftrightarrow> blankText (fieldText R header row name)"
  by (simp add: js_or_getValue getValue_text trim_blank blankText_def)

lemma isRowEmpty_blank: "isRowEmpty row = list_all (\<lambda>c. blankText (cellText c)) row"
  by (simp add: isRowEmpty_def text_or trim_blank blankText_def)

lemma qualifying_iff:
  "qualifying R header row \<longleftrightarrow>
     \<not> (row = [] \<or> isRowEmpty row) \<and>
     \<not> (trim (js_String (js_or (getValue (map (normalizeHeader R) header) row (lit ''email''))
                            (JStr []))) = [] \<and>
        trim (js_String (js_or (getValue (map (normalizeHeader R) header) row (lit ''timestamp''))
                            (JStr []))) = [])"
  unfolding field_blank
  by (auto simp: qualifying_def isRowEmpty_blank list_all_iff list_ex_iff)

lemma isTruthy_consent:
  "isTruthy R (getValue (map (normalizeHeader R) header) row (lit ''acepta_marketing'')) \<longleftrightarrow>
     consentText R header row \<in> set truthyValues"
  by (simp add: isTruthy_def consentText_def js_or_getValue getValue_text trim_trimmed)

lemma countryOf_field:
  "countryOf R (map (normalizeHeader R) header) row =
     toUpperCase R (trimmed (if fieldText R header row (lit ''ip_country'') = []
                             then lit ''unknown''
                             else fieldText R header row (lit ''ip_country'')))"
  by (simp add: countryOf_def js_or_def field_empty getValue_text trim_trimmed)

lemma padded_field_key:
  assumes "fieldText R header row (lit ''ip_country'') = wa @ a @ wb"
    and "list_all isSpace wa" and "list_all isSpace wb" and "solid a"
  shows "countryOf R (map (normalizeHeader R) header) row = toUpperCase R a"
proof -
  have ne: "a \<noteq> []"
    using assms(4) by (simp add: solid_def)
  have "trimmed (wa @ a @ wb) = a"
    using assms(2,3,4) by (simp add: trim_pad trim_core solid_def trim_trimmed [symmetric])
  with ne show ?thesis
    unfolding countryOf_field assms(1) by simp
qed

subsection \<open>The count object\<close>

lemma getCount_setProp:
  "getCount (setProp m k v) k' = (if k' = k then v else getCount m k')"
  by (induction m k v rule: setProp.induct) (auto simp: getCount_def)

lemma keys_setProp:
  "map fst (setProp m k v) = (if k \<in> fst ` set m then map fst m else map fst m @ [k])"
  by (induction m k v rule: setProp.induct) auto

lemma sum_setProp:
  "sum_list (map snd (setProp m k (Suc (getCount m k)))) = Suc (sum_list (map snd m))"
  by (induction m) (auto simp: getCount_def)

lemma mset_Object_entries: "mset (Object_entries m) = mset m"
  by (simp add: Object_entries_def)

lemma mset_countriesOf:
  "mset (countriesOf m) = image_mset (\<lambda>(c, n). \<lparr>code = c, count = n\<rparr>) (mset m)"
  by (simp add: countriesOf_def mset_Object_entries)

subsection \<open>One row\<close>

lemma processRow_skip:
  "\<not> qualifying R header row \<Longrightarrow> processRow R (map (normalizeHeader R) header) t row = t"
  unfolding qualifying_iff processRow_def by (auto simp: Let_def)

lemma processRow_total:
  "n_total (processRow R (map (normalizeHeader R) header) t row) =
     n_total t + (if qualifying R header row then 1 else 0)"
  unfolding qualifying_iff processRow_def by (simp add: Let_def)

lemma processRow_marketingYes:
  "n_marketingYes (processRow R (map (normalizeHeader R) header) t row) =
     n_marketingYes t +
     (if qualifying R header row \<and> consentText R header row \<in> set truthyValues then 1 else 0)"
  unfolding qualifying_iff processRow_def by (simp add: Let_def isTruthy_consent)

lemma processRow_unknownCount:
  "n_unknownCount (processRow R (map (normalizeHeader R) header) t row) =
     n_unknownCount t +
     (if qualifying R header row \<and>
         (countryOf R (map (normalizeHeader R) header) row = [] \<or>
          countryOf R (map (normalizeHeader R) header) row = lit ''UNKNOWN'')
      then 1 else 0)"
  unfolding qualifying_iff processRow_def by (simp add: Let_def)

lemma processRow_countryCounts:
  "countryCounts (processRow R (map (normalizeHeader R) header) t row) =
     (if qualifying R header row \<and> countryOf R (map (normalizeHeader R) header) row \<noteq> [] \<and>
         countryOf R (map (normalizeHeader R) header) row \<noteq> lit ''UNKNOWN''
      then setProp (countryCounts t) (countryOf R (map (normalizeHeader R) header) row)
             (getCount (countryCounts t) (countryOf R (map (normalizeHeader R) header) row) + 1)
      else countryCounts t)"
  unfolding qualifying_iff processRow_def by (simp add: Let_def)

subsection \<open>The loop\<close>

lemma loop_total:
  "n_total (foldl (processRow R (map (normalizeHeader R) header)) t rows) =
     n_total t + length (filter (qualifying R header) rows)"
  by (induction rows arbitrary: t) (simp_all add: processRow_total)

lemma loop_marketingYes:
  "n_marketingYes (foldl (processRow R (map (normalizeHeader R) header)) t rows) =
     n_marketingYes t +
     length (filter (\<lambda>r. qualifying R header r \<and> consentText R header r \<in> set truthyValues)
               rows)"
  by (induction rows arbitrary: t) (simp_all add: processRow_marketingYes)

lemma loop_unknownCount:
  "n_unknownCount (foldl (processRow R (map (normalizeHeader R) header)) t rows) =
     n_unknownCount t +
     length (filter (\<lambda>r. qualifying R header r \<and>
                          (countryOf R (map (normalizeHeader R) header) r = [] \<or>
                           countryOf R (map (normalizeHeader R) header) r = lit ''UNKNOWN''))
               rows)"
  by (induction rows arbitrary: t) (simp_all add: processRow_unknownCount)

lemma loop_getCount:
  "getCount (countryCounts (foldl (processRow R (map (normalizeHeader R) header)) t rows)) k =
     getCount (countryCounts t) k +
     (if k \<noteq> [] \<and> k \<noteq> lit ''UNKNOWN''
      then length (filter (\<lambda>r. qualifying R header r \<and>
                               countryOf R (map (normalizeHeader R) header) r = k) rows)
      else 0)"
  by (induction rows arbitrary: t) (auto simp: processRow_countryCounts getCount_setProp)

lemma loop_keys:
  "fst ` set (countryCounts (foldl (processRow R (map (normalizeHeader R) header)) t rows)) =
     fst ` set (countryCounts t) \<union>
     {k. k \<noteq> [] \<and> k \<noteq> lit ''UNKNOWN'' \<and>
         (\<exists>r \<in> set rows. qualifying R header r \<and>
                          countryOf R (map (normalizeHeader R) header) r = k)}"
proof (induction rows arbitrary: t)
  case Nil
  show ?case by simp
next
  case (Cons row rows)
  let ?hs = "map (normalizeHeader R) header"
  have step: "fst ` set (countryCounts (processRow R ?hs t row)) =
        fst ` set (countryCounts t) \<union>
        (if qualifying R header row \<and> countryOf R ?hs row \<noteq> [] \<and>
            countryOf R ?hs row \<noteq> lit ''UNKNOWN'' then {countryOf R ?hs row} else {})"
    using keys_setProp [of "countryCounts t" "countryOf R ?hs row"
        "getCount (countryCounts t) (countryOf R ?hs row) + 1"]
    by (auto simp: processRow_countryCounts simp flip: set_map split: if_splits)
  show ?case
    unfolding foldl_Cons Cons.IH step by auto
qed

lemma loop_distinct:
  "distinct (map fst (countryCounts t)) \<Longrightarrow>
   distinct (map fst (countryCounts
     (foldl (processRow R (map (normalizeHeader R) header)) t rows)))"
proof (induction rows arbitrary: t)
  case Nil
  then show ?case by simp
next
  case (Cons row rows)
  have "distinct (map fst (countryCounts (processRow R (map (normalizeHeader R) header) t row)))"
    using Cons.prems by (simp add: processRow_countryCounts keys_setProp)
  then show ?case
    by (simp add: Cons.IH)
qed

lemma loop_sum:
  "n_total t = sum_list (map snd (countryCounts t)) + n_unknownCount t \<Longrightarrow>
   n_total (foldl (processRow R (map (normalizeHeader R) header)) t rows) =
     sum_list (map snd (countryCounts
       (foldl (processRow R (map (normalizeHeader R) header)) t rows))) +
     n_unknownCount (foldl (processRow R (map (normalizeHeader R) header)) t rows)"
proof (induction rows arbitrary: t)
  case Nil
  then show ?case by simp
next
  case (Cons row rows)
  let ?hs = "map (normalizeHeader R) header"
  have "n_total (processRow R ?hs t row) =
        sum_list (map snd (countryCounts (processRow R ?hs t row))) +
        n_unknownCount (processRow R ?hs t row)"
    using Cons.prems
    by (simp add: processRow_total processRow_unknownCount processRow_countryCounts sum_setProp)
  then show ?case
    by (simp add: Cons.IH)
qed

subsection \<open>The sorted country list\<close>

lemma sum_countriesOf: "sum_list (map count (countriesOf m)) = sum_list (map snd m)"
proof -
  have "mset (map count (countriesOf m)) = mset (map snd m)"
    by (simp add: mset_countriesOf image_mset.compositionality comp_def case_prod_unfold)
  then show ?thesis
    by (metis sum_mset_sum_list)
qed

lemma codes_countriesOf: "mset (map code (countriesOf m)) = mset (map fst m)"
  by (simp add: mset_countriesOf image_mset.compositionality comp_def case_prod_unfold)

lemma sorted_countriesOf: "sorted_wrt (\<lambda>a b. count b \<le> count a) (countriesOf m)"
proof -
  have "sorted (map (\<lambda>e. - int (count e)) (countriesOf m))"
    unfolding countriesOf_def by (rule sorted_sort_key)
  then show ?thesis
    by (simp add: sorted_map)
qed

lemma entry_count:
  assumes "distinct (map fst m)" and "c \<in> set (countriesOf m)"
  shows "count c = getCount m (code c)"
proof -
  have "c \<in># mset (countriesOf m)" using assms(2) by simp
  then have "c \<in> (\<lambda>(k, n). \<lparr>code = k, count = n\<rparr>) ` set m"
    unfolding mset_countriesOf by simp
  then have "(code c, count c) \<in> set m" by auto
  with assms(1) have "map_of m (code c) = Some (count c)" by simp
  then show ?thesis by (simp add: getCount_def)
qed

subsection \<open>The summary and the cache\<close>

lemma summarize_fields:
  "rows \<noteq> [] \<Longrightarrow>
   summary.total (summarize R rows stamp) =
     n_total (foldl (processRow R (map (normalizeHeader R) (hd rows))) tally0 (drop 1 rows)) \<and>
   marketingYes (summarize R rows stamp) =
     n_marketingYes (foldl (processRow R (map (normalizeHeader R) (hd rows))) tally0 (drop 1 rows)) \<and>
   unknownCount (summarize R rows stamp) =
     n_unknownCount (foldl (processRow R (map (normalizeHeader R) (hd rows))) tally0 (drop 1 rows)) \<and>
   countries (summarize R rows stamp) =
     countriesOf (countryCounts
       (foldl (processRow R (map (normalizeHeader R) (hd rows))) tally0 (drop 1 rows)))"
  by (simp add: summarize_def Let_def)

lemma summarize_Nil: "summarize R [] stamp = emptySummary stamp"
  by (simp add: summarize_def)

lemma fetchSheetRows_cache: "cache (snd (fetchSheetRows e st)) = cache st"
  by (simp add: fetchSheetRows_def getSheetTitle_def Let_def split: sum.splits option.splits)

lemma fetchSheetRows_requests:
  "fetchSheetRows e st = (Inr rows, st1) \<Longrightarrow> valueRequests st1 = valueRequests st + 1"
  by (auto simp: fetchSheetRows_def getSheetTitle_def Let_def
           split: sum.splits option.splits if_splits prod.splits)

lemma fetchSheetRows_console: "console (snd (fetchSheetRows e st)) = console st"
  by (simp add: fetchSheetRows_def getSheetTitle_def Let_def split: sum.splits option.splits)

lemma buildSummary_miss:
  "\<not> cacheFresh (clock e) (cache st) \<Longrightarrow>
   buildSummary R e st =
     (case fetchSheetRows e st of
        (Inl err, st1) \<Rightarrow> (Inl err, st1)
      | (Inr rows, st1) \<Rightarrow>
          (Inr (summarize R rows (isoNow e)),
           st1\<lparr>cache := \<lparr>data = Some (summarize R rows (isoNow e)), fetchedAt = clock e\<rparr>\<rparr>))"
  by (simp add: buildSummary_def Let_def split: prod.splits sum.splits)

lemma buildSummary_hit:
  "cacheFresh (clock e) (cache st) \<Longrightarrow> data (cache st) = Some s \<Longrightarrow>
   buildSummary R e st = (Inr s, st)"
  by (simp add: buildSummary_def Let_def)

subsection \<open>Case mappings on ASCII text\<close>

lemma lit_ascii_code: "list_all (\<lambda>u. u < 0x80) (lit ''unknown'')"
  by (simp add: lit_def)

lemma faithful_empty: "asciiFaithful R \<Longrightarrow> toUpperCase R [] = [] \<and> toLowerCase R [] = []"
  by (simp add: asciiFaithful_def)

lemma faithful_unknown: "asciiFaithful R \<Longrightarrow> toUpperCase R (lit ''unknown'') = lit ''UNKNOWN''"
  using lit_ascii_code by (simp add: asciiFaithful_def lit_def upperAscii_def)

lemma trimmed_unknown: "trimmed (lit ''unknown'') = lit ''unknown''"
  by (simp add: trimmed_def lit_def isSpace_def Let_def)

lemma trimmed_Nil: "trimmed [] = []"
  by (simp add: trimmed_def)

lemma countryOf_key:
  assumes "asciiFaithful R"
  shows "countryOf R (map (normalizeHeader R) header) row =
     (if fieldText R header row (lit ''ip_country'') = [] then lit ''UNKNOWN''
      else countryKey R header row)"
    and "fieldText R header row (lit ''ip_country'') = [] \<Longrightarrow> countryKey R header row = []"
  using faithful_unknown [OF assms] faithful_empty [OF assms]
  by (simp_all add: countryOf_field countryKey_def trimmed_unknown trimmed_Nil)

lemma unknown_iff:
  assumes "asciiFaithful R"
  shows "countryOf R (map (normalizeHeader R) header) row = [] \<or>
         countryOf R (map (normalizeHeader R) header) row = lit ''UNKNOWN'' \<longleftrightarrow>
         countryKey R header row = [] \<or> countryKey R header row = lit ''UNKNOWN''"
  using countryOf_key [OF assms, of header row] by auto

lemma named_key:
  assumes "asciiFaithful R" and "countryKey R header row \<noteq> []"
  shows "countryOf R (map (normalizeHeader R) header) row = countryKey R header row"
  using countryOf_key [OF assms(1), of header row] assms(2) by auto

lemma sampleCasing_faithful: "asciiFaithful sampleCasing"
proof -
  have low: "lowerLatin1 u = lowerAscii u" if "u < 0x80" for u
    using that by (auto simp: lowerLatin1_def lowerAscii_def word_less_nat_alt word_le_nat_alt)
  have up: "upperLatin1 u = [upperAscii u]" if "u < 0x80" for u
    using that by (auto simp: upperLatin1_def upperAscii_def word_less_nat_alt word_le_nat_alt)
  have "map lowerLatin1 s = map lowerAscii s \<and> concat (map upperLatin1 s) = map upperAscii s"
    if "list_all (\<lambda>u. u < 0x80) s" for s
    using that by (induction s) (simp_all add: low up)
  then show ?thesis
    by (simp add: asciiFaithful_def sampleCasing_def)
qed

lemma ascii_trim: "list_all (\<lambda>u. u < 0x80) s \<Longrightarrow> list_all (\<lambda>u. u < 0x80) (trim s)"
proof -
  have "x \<in> set s" if "x \<in> set (trim s)" for x
  proof -
    from that have "x \<in> set (dropWhile isSpace (rev (dropWhile isSpace s)))"
      by (simp add: trim_def)
    then have "x \<in> set (rev (dropWhile isSpace s))"
      by (rule set_dropWhileD)
    then have "x \<in> set (dropWhile isSpace s)"
      by simp
    then show ?thesis
      by (rule set_dropWhileD)
  qed
  then show "list_all (\<lambda>u. u < 0x80) s \<Longrightarrow> list_all (\<lambda>u. u < 0x80) (trim s)"
    by (auto simp: list_all_iff)
qed

lemma isTruthy_ascii:
  assumes "asciiFaithful R" and "list_all (\<lambda>u. u < 0x80) s"
  shows "isTruthy R (JStr s) \<longleftrightarrow> map lowerAscii (trim s) \<in> set truthyValues"
proof -
  have "toLowerCase R (trim s) = map lowerAscii (trim s)"
    using assms(1) ascii_trim [OF assms(2)] by (simp add: asciiFaithful_def)
  then show ?thesis
    by (simp add: isTruthy_def text_or)
qed

subsection \<open>Division\<close>

lemma scaleUp_spec:
  "0 < n \<Longrightarrow> 0 < d \<Longrightarrow> \<exists>j. scaleUp n d k = (n * 2 ^ j, k + j) \<and> d * 2 ^ 52 \<le> n * 2 ^ j"
proof (induction n d k rule: scaleUp.induct)
  case (1 n d k)
  show ?case
  proof (cases "n < d * 2 ^ 52")
    case True
    with "1.prems" have "\<exists>j. scaleUp (2 * n) d (Suc k) = (2 * n * 2 ^ j, Suc k + j) \<and>
        d * 2 ^ 52 \<le> 2 * n * 2 ^ j"
      by (intro "1.IH") simp_all
    then obtain j where j: "scaleUp (2 * n) d (Suc k) = (2 * n * 2 ^ j, Suc k + j)"
      "d * 2 ^ 52 \<le> 2 * n * 2 ^ j"
      by blast
    have "scaleUp n d k = scaleUp (2 * n) d (Suc k)"
      using True "1.prems" by (subst scaleUp.simps) simp
    with j have "scaleUp n d k = (n * 2 ^ Suc j, k + Suc j) \<and> d * 2 ^ 52 \<le> n * 2 ^ Suc j"
      by (simp add: mult.assoc mult.left_commute)
    then show ?thesis by blast
  next
    case False
    then have "scaleUp n d k = (n * 2 ^ 0, k + 0) \<and> d * 2 ^ 52 \<le> n * 2 ^ 0"
      by (subst scaleUp.simps) simp
    then show ?thesis by blast
  qed
qed

lemma scaleDown_spec:
  "0 < d \<Longrightarrow> d * 2 ^ 52 \<le> n \<Longrightarrow>
   \<exists>j. scaleDown n d k = (d * 2 ^ j, k + j) \<and> d * 2 ^ j * 2 ^ 52 \<le> n \<and> n < d * 2 ^ j * 2 ^ 53"
proof (induction n d k rule: scaleDown.induct)
  case (1 n d k)
  show ?case
  proof (cases "d * 2 ^ 53 \<le> n")
    case True
    with "1.prems" have "\<exists>j. scaleDown n (2 * d) (Suc k) = (2 * d * 2 ^ j, Suc k + j) \<and>
        2 * d * 2 ^ j * 2 ^ 52 \<le> n \<and> n < 2 * d * 2 ^ j * 2 ^ 53"
      by (intro "1.IH") simp_all
    then obtain j where j: "scaleDown n (2 * d) (Suc k) = (2 * d * 2 ^ j, Suc k + j)"
      "2 * d * 2 ^ j * 2 ^ 52 \<le> n" "n < 2 * d * 2 ^ j * 2 ^ 53"
      by blast
    have "scaleDown n d k = scaleDown n (2 * d) (Suc k)"
      using True "1.prems" by (subst scaleDown.simps) simp
    with j have "scaleDown n d k = (d * 2 ^ Suc j, k + Suc j) \<and>
        d * 2 ^ Suc j * 2 ^ 52 \<le> n \<and> n < d * 2 ^ Suc j * 2 ^ 53"
      by (simp add: mult.assoc mult.left_commute)
    then show ?thesis by blast
  next
    case False
    then have "scaleDown n d k = (d * 2 ^ 0, k + 0) \<and> d * 2 ^ 0 * 2 ^ 52 \<le> n \<and>
        n < d * 2 ^ 0 * 2 ^ 53"
      using "1.prems" by (subst scaleDown.simps) simp
    then show ?thesis by blast
  qed
qed

lemma round_half:
  fixes n D :: int
  assumes "0 < D"
  defines "q \<equiv> n div D" and "r \<equiv> n mod D"
  defines "m \<equiv> (if D < 2 * r \<or> (2 * r = D \<and> odd q) then q + 1 else q)"
  shows "2 * \<bar>m * D - n\<bar> \<le> D"
proof -
  have n: "n = q * D + r" and r: "0 \<le> r" "r < D"
    using assms(1) by (simp_all add: q_def r_def)
  show ?thesis
  proof (cases "D < 2 * r \<or> (2 * r = D \<and> odd q)")
    case True
    then have "m = q + 1"
      unfolding m_def by (rule if_P)
    then have "m * D - n = D - r"
      by (simp add: n algebra_simps)
    with True r show ?thesis by auto
  next
    case False
    then have "m = q"
      unfolding m_def by (rule if_not_P)
    then have "m * D - n = - r"
      by (simp add: n)
    with False r show ?thesis by auto
  qed
qed

lemma quotient_bits:
  fixes n D :: int
  assumes "0 < D" and "D * 2 ^ 52 \<le> n" and "n < D * 2 ^ 53"
  shows "2 ^ 52 \<le> n div D" and "n div D < 2 ^ 53"
proof -
  show "2 ^ 52 \<le> n div D"
    using assms(1,2) zdiv_mono1 by fastforce
  show "n div D < 2 ^ 53"
  proof (rule ccontr)
    assume "\<not> n div D < 2 ^ 53"
    then have "2 ^ 53 \<le> n div D" by simp
    then have "D * 2 ^ 53 \<le> D * (n div D)" using assms(1) by simp
    also have "\<dots> \<le> n" using assms(1) by (simp add: minus_mod_eq_mult_div [symmetric])
    finally show False using assms(3) by simp
  qed
qed

lemma js_divide_shape:
  assumes "0 < a" and "0 < b"
  shows "\<exists>m up down.
           js_divide a b = of_int m * 2 ^ down / 2 ^ up \<and> 2 ^ 52 \<le> m \<and> m \<le> 2 ^ 53 \<and>
           int b * 2 ^ down * 2 ^ 52 \<le> int a * 2 ^ up \<and>
           2 * \<bar>m * (int b * 2 ^ down) - int a * 2 ^ up\<bar> \<le> int b * 2 ^ down"
proof -
  obtain up where up: "scaleUp (int a) (int b) 0 = (int a * 2 ^ up, up)"
    and big: "int b * 2 ^ 52 \<le> int a * 2 ^ up"
    using scaleUp_spec [of "int a" "int b" 0] assms by auto
  define n where "n = int a * 2 ^ up"
  obtain down where down: "scaleDown n (int b) 0 = (int b * 2 ^ down, down)"
    and lo: "int b * 2 ^ down * 2 ^ 52 \<le> n" and hi: "n < int b * 2 ^ down * 2 ^ 53"
    using scaleDown_spec [of "int b" n 0] assms big by (auto simp: n_def)
  define D where "D = int b * 2 ^ down"
  define m where "m = (if D < 2 * (n mod D) \<or> (2 * (n mod D) = D \<and> odd (n div D))
                       then n div D + 1 else n div D)"
  have Dpos: "0 < D" using assms by (simp add: D_def)
  have val: "js_divide a b = of_int m * 2 ^ down / 2 ^ up"
    using assms
    by (simp add: js_divide_def up down n_def [symmetric] D_def [symmetric] m_def Let_def)
  have q: "2 ^ 52 \<le> n div D" "n div D < 2 ^ 53"
    using quotient_bits [OF Dpos] lo hi unfolding D_def [symmetric] by simp_all
  then have bits: "2 ^ 52 \<le> m" "m \<le> 2 ^ 53"
    by (simp_all add: m_def)
  have near: "2 * \<bar>m * D - n\<bar> \<le> D"
    unfolding m_def using Dpos by (rule round_half)
  show ?thesis
    using val bits lo near unfolding D_def n_def by blast
qed

lemma js_divide_rounds:
  "\<bar>js_divide a b - of_nat a / of_nat b\<bar> \<le> (of_nat a / of_nat b) / 2 ^ 53"
proof (cases "0 < a \<and> 0 < b")
  case False
  then have quotient: "of_nat a / of_nat b = (0::rat)"
    by (cases "a = 0") auto
  have result: "js_divide a b = 0"
    using False by (auto simp: js_divide_def)
  show ?thesis
    unfolding quotient result by simp
next
  case True
  then obtain m up down where val: "js_divide a b = of_int m * 2 ^ down / 2 ^ up"
    and lo: "int b * 2 ^ down * 2 ^ 52 \<le> int a * 2 ^ up"
    and near: "2 * \<bar>m * (int b * 2 ^ down) - int a * 2 ^ up\<bar> \<le> int b * 2 ^ down"
    using js_divide_shape [of a b] by blast
  define n where "n = int a * 2 ^ up"
  define D where "D = int b * 2 ^ down"
  have Dpos: "0 < D" using True by (simp add: D_def)
  define s :: rat where "s = 2 ^ down / 2 ^ up"
  have spos: "0 < s" by (simp add: s_def)
  define x :: rat where "x = of_int n / of_int D"
  have quot: "of_nat a / of_nat b = x * s"
    using True by (simp add: x_def s_def n_def D_def field_simps)
  have "2 * \<bar>m * D - n\<bar> \<le> D"
    using near by (simp add: D_def n_def)
  then have "2 * \<bar>of_int (m * D - n)\<bar> \<le> (of_int D :: rat)"
    by (metis of_int_abs of_int_le_iff of_int_mult of_int_numeral)
  then have bound: "\<bar>of_int (m * D - n)\<bar> \<le> (of_int D :: rat) / 2"
    by simp
  have "of_int m - x = of_int (m * D - n) / of_int D"
    using Dpos by (simp add: x_def field_simps)
  then have "\<bar>of_int m - x\<bar> = \<bar>of_int (m * D - n)\<bar> / (of_int D :: rat)"
    using Dpos by (simp add: abs_divide)
  also have "\<dots> \<le> ((of_int D :: rat) / 2) / of_int D"
    using bound Dpos by (simp only: divide_right_mono of_int_0_le_iff less_imp_le)
  also have "\<dots> = 1 / 2"
    using Dpos by simp
  finally have half: "\<bar>of_int m - x\<bar> \<le> 1 / 2" .
  have "(of_int D :: rat) * 2 ^ 52 \<le> of_int n"
    using lo unfolding D_def [symmetric] n_def [symmetric]
    by (metis of_int_le_iff of_int_mult of_int_numeral of_int_power)
  then have xbig: "2 ^ 52 \<le> x"
    using Dpos by (simp add: x_def field_simps)
  have "js_divide a b = of_int m * s"
    by (simp add: val s_def)
  then have "js_divide a b - of_nat a / of_nat b = (of_int m - x) * s"
    by (simp add: quot left_diff_distrib)
  then have "\<bar>js_divide a b - of_nat a / of_nat b\<bar> = \<bar>of_int m - x\<bar> * s"
    using spos by (simp add: abs_mult)
  also have "\<dots> \<le> (1 / 2) * s"
    using half spos by (simp add: mult_right_mono)
  also have "\<dots> \<le> (x / 2 ^ 53) * s"
    using xbig spos by (simp add: mult_right_mono)
  also have "\<dots> = (of_nat a / of_nat b) / 2 ^ 53"
    by (simp add: quot)
  finally show ?thesis .
qed

subsection \<open>The sample inputs, evaluated\<close>

lemma sample_total: "summary.total (summarize sampleCasing sampleRows (lit ''t'')) = 7"
  by code_simp

lemma sample_marketingYes: "marketingYes (summarize sampleCasing sampleRows (lit ''t'')) = 4"
  by code_simp

lemma sample_unknownCount: "unknownCount (summarize sampleCasing sampleRows (lit ''t'')) = 2"
  by code_simp

lemma sample_countries:
  "countries (summarize sampleCasing sampleRows (lit ''t'')) =
     [\<lparr>code = lit ''MX'', count = 2\<rparr>, \<lparr>code = [0xC9], count = 2\<rparr>,
      \<lparr>code = lit ''US'', count = 1\<rparr>]"
  by code_simp

lemma sample_qualifying:
  "qualifying sampleCasing sampleHeader rowA" "qualifying sampleCasing sampleHeader rowB"
  "\<not> qualifying sampleCasing sampleHeader rowBlank" "qualifying sampleCasing sampleHeader rowC"
  "qualifying sampleCasing sampleHeader rowD" "qualifying sampleCasing sampleHeader rowShort"
  by code_simp+

lemma sample_countryKey:
  "countryKey sampleCasing sampleHeader rowC = []"
  "countryKey sampleCasing sampleHeader rowD \<noteq> []"
  "countryKey sampleCasing sampleHeader rowD \<noteq> lit ''UNKNOWN''"
  "countryKey sampleCasing sampleHeader rowD = lit ''US''"
  by code_simp+

lemma sample_consent:
  "consentText sampleCasing sampleHeader rowD \<in> {lit ''true'', lit ''1'', lit ''yes'', lit ''si''}"
  "consentText sampleCasing sampleHeader rowB \<notin> {lit ''true'', lit ''1'', lit ''yes'', lit ''si''}"
  by code_simp+

lemma sample_variants:
  "list_all isSpace [0xA0]" "list_all isSpace (lit '' '')" "list_all isSpace []"
  "solid (lit ''mx'')" "solid (lit ''MX'')" "sameLetters sampleCasing (lit ''mx'') (lit ''MX'')"
  "fieldText sampleCasing sampleHeader rowB (lit ''ip_country'') = [0xA0] @ lit ''mx'' @ lit '' ''"
  "fieldText sampleCasing sampleHeader rowA (lit ''ip_country'') = [] @ lit ''MX'' @ []"
  "toUpperCase sampleCasing (lit ''mx'') = lit ''MX''"
  by code_simp+

lemma sample_short:
  "indexOf (map (normalizeHeader sampleCasing) sampleHeader) (lit ''ip_country'') = 3"
  by code_simp

lemma sample_first_call:
  "buildSummary sampleCasing sampleEnv server0 =
     (Inr (summarize sampleCasing sampleRows (isoNow sampleEnv)), servedOnce)"
  by (simp add: buildSummary_def cacheFresh_def fetchSheetRows_def getSheetTitle_def
        sampleEnv_def server0_def servedOnce_def firstTitle_def js_or_def Let_def lit_def)

section \<open>The claims\<close>

text \<open>
  Claim C1. For every fetched row set, the summary satisfies
  \<open>total = sum of countries[*].count + unknownCount\<close>: every qualifying record is counted
  in exactly one bucket, a named country entry or the unknown count.
\<close>

theorem total_is_countries_plus_unknown:
  "summary.total (summarize R rows stamp) =
     sum_list (map count (countries (summarize R rows stamp))) +
     unknownCount (summarize R rows stamp)"
proof (cases "rows = []")
  case True
  then show ?thesis by (simp add: summarize_Nil emptySummary_def)
next
  case False
  have "n_total tally0 = sum_list (map snd (countryCounts tally0)) + n_unknownCount tally0"
    by (simp add: tally0_def)
  from loop_sum [OF this] show ?thesis
    by (simp add: summarize_fields [OF False] sum_countriesOf)
qed

text \<open>On the sample sheet: seven records, five under a country and two unknown.\<close>

theorem total_is_countries_plus_unknown_witness:
  "summary.total (summarize sampleCasing sampleRows (lit ''t'')) = 7 \<and>
   sum_list (map count (countries (summarize sampleCasing sampleRows (lit ''t'')))) +
     unknownCount (summarize sampleCasing sampleRows (lit ''t'')) = 7"
  using total_is_countries_plus_unknown [of sampleCasing sampleRows "lit ''t''"] sample_total by simp

text \<open>
  Claim C5. A data row increments \<open>total\<close> if and only if it has at least one non-blank
  cell and its email or timestamp field, found through the header row as fetched, is
  non-blank; any other row leaves every loop variable as it was. So \<open>total\<close> is the
  number of such rows after the header. Blank means: nothing but white space, the no-break
  space and the other Unicode spaces included.
\<close>

theorem total_counts_qualifying_rows:
  "n_total (processRow R (map (normalizeHeader R) header) t row) =
     n_total t + (if qualifying R header row then 1 else 0) \<and>
   (\<not> qualifying R header row \<longrightarrow> processRow R (map (normalizeHeader R) header) t row = t) \<and>
   summary.total (summarize R rows stamp) =
     length (filter (qualifying R (hd rows)) (drop 1 rows))"
proof -
  have "summary.total (summarize R rows stamp) =
     length (filter (qualifying R (hd rows)) (drop 1 rows))"
  proof (cases "rows = []")
    case True
    then show ?thesis by (simp add: summarize_Nil emptySummary_def)
  next
    case False
    then show ?thesis
      by (simp add: summarize_fields loop_total tally0_def)
  qed
  then show ?thesis
    by (simp add: processRow_total processRow_skip)
qed

text \<open>The sample row of blanks and a no-break space is skipped, the short one counts.\<close>

theorem total_counts_qualifying_rows_witness:
  "\<not> qualifying sampleCasing sampleHeader rowBlank \<and>
   processRow sampleCasing (map (normalizeHeader sampleCasing) sampleHeader) tally0 rowBlank =
     tally0 \<and>
   qualifying sampleCasing sampleHeader rowShort \<and>
   n_total (processRow sampleCasing (map (normalizeHeader sampleCasing) sampleHeader) tally0
              rowShort) = n_total tally0 + 1 \<and>
   length (filter (qualifying sampleCasing (hd sampleRows)) (drop 1 sampleRows)) = 7"
  using total_counts_qualifying_rows [of sampleCasing sampleHeader tally0 rowBlank sampleRows "lit ''t''"]
    total_counts_qualifying_rows [of sampleCasing sampleHeader tally0 rowShort sampleRows "lit ''t''"]
    sample_qualifying(3,6) sample_total
  by simp

text \<open>
  Claim C9. A qualifying row increments \<open>marketingYes\<close> if and only if its consent field,
  trimmed and lower-cased, is one of \<open>true\<close>, \<open>1\<close>, \<open>yes\<close>, \<open>si\<close>; so \<open>marketingYes\<close> is
  the number of such rows. In particular \<open>TRUE\<close>, \<open>Yes\<close>, \<open>1\<close>, \<open>si\<close> and the padded
  \<open>SI\<close> consent, while \<open>no\<close>, \<open>0\<close>, the empty text and \<open>false\<close> do not; for these
  the lower-case mapping is assumed to act on ASCII text as it does in JavaScript.
\<close>

theorem marketingYes_counts_consent:
  "n_marketingYes (processRow R (map (normalizeHeader R) header) t row) =
     n_marketingYes t +
     (if qualifying R header row \<and>
         consentText R header row \<in> {lit ''true'', lit ''1'', lit ''yes'', lit ''si''}
      then 1 else 0) \<and>
   marketingYes (summarize R rows stamp) =
     length (filter (\<lambda>r. qualifying R (hd rows) r \<and>
                          consentText R (hd rows) r \<in>
                            {lit ''true'', lit ''1'', lit ''yes'', lit ''si''}) (drop 1 rows)) \<and>
   (asciiFaithful R \<longrightarrow>
      isTruthy R (JStr (lit ''TRUE'')) \<and> isTruthy R (JStr (lit ''Yes'')) \<and>
      isTruthy R (JStr (lit ''1'')) \<and> isTruthy R (JStr (lit ''si'')) \<and>
      isTruthy R (JStr (lit '' SI '')) \<and>
      \<not> isTruthy R (JStr (lit ''no'')) \<and> \<not> isTruthy R (JStr (lit ''0'')) \<and>
      \<not> isTruthy R (JStr []) \<and> \<not> isTruthy R (JStr (lit ''false'')))"
proof -
  have tv: "set truthyValues = {lit ''true'', lit ''1'', lit ''yes'', lit ''si''}"
    by (simp add: truthyValues_def)
  have one: "n_marketingYes (processRow R (map (normalizeHeader R) header) t row) =
     n_marketingYes t +
     (if qualifying R header row \<and>
         consentText R header row \<in> {lit ''true'', lit ''1'', lit ''yes'', lit ''si''}
      then 1 else 0)"
    using processRow_marketingYes [of R header t row] unfolding tv .
  have every: "marketingYes (summarize R rows stamp) =
     length (filter (\<lambda>r. qualifying R (hd rows) r \<and>
                          consentText R (hd rows) r \<in>
                            {lit ''true'', lit ''1'', lit ''yes'', lit ''si''}) (drop 1 rows))"
  proof (cases "rows = []")
    case True
    then show ?thesis by (simp add: summarize_Nil emptySummary_def)
  next
    case False
    then show ?thesis
      using loop_marketingYes [of R "hd rows" tally0 "drop 1 rows"]
      unfolding tv by (simp add: summarize_fields tally0_def)
  qed
  have ascii: "list_all (\<lambda>u. u < 0x80) (lit ''TRUE'')" "list_all (\<lambda>u. u < 0x80) (lit ''Yes'')"
    "list_all (\<lambda>u. u < 0x80) (lit ''1'')" "list_all (\<lambda>u. u < 0x80) (lit ''si'')"
    "list_all (\<lambda>u. u < 0x80) (lit '' SI '')" "list_all (\<lambda>u. u < 0x80) (lit ''no'')"
    "list_all (\<lambda>u. u < 0x80) (lit ''0'')" "list_all (\<lambda>u. u < 0x80) []"
    "list_all (\<lambda>u. u < 0x80) (lit ''false'')"
    by code_simp+
  have yes: "map lowerAscii (trim (lit ''TRUE'')) \<in> set truthyValues"
    "map lowerAscii (trim (lit ''Yes'')) \<in> set truthyValues"
    "map lowerAscii (trim (lit ''1'')) \<in> set truthyValues"
    "map lowerAscii (trim (lit ''si'')) \<in> set truthyValues"
    "map lowerAscii (trim (lit '' SI '')) \<in> set truthyValues"
    by code_simp+
  have no: "map lowerAscii (trim (lit ''no'')) \<notin> set truthyValues"
    "map lowerAscii (trim (lit ''0'')) \<notin> set truthyValues"
    "map lowerAscii (trim []) \<notin> set truthyValues"
    "map lowerAscii (trim (lit ''false'')) \<notin> set truthyValues"
    by code_simp+
  have examples: "isTruthy R (JStr (lit ''TRUE'')) \<and> isTruthy R (JStr (lit ''Yes'')) \<and>
      isTruthy R (JStr (lit ''1'')) \<and> isTruthy R (JStr (lit ''si'')) \<and>
      isTruthy R (JStr (lit '' SI '')) \<and>
      \<not> isTruthy R (JStr (lit ''no'')) \<and> \<not> isTruthy R (JStr (lit ''0'')) \<and>
      \<not> isTruthy R (JStr []) \<and> \<not> isTruthy R (JStr (lit ''false''))"
    if "asciiFaithful R"
    using ascii yes no by (simp add: isTruthy_ascii [OF that])
  show ?thesis
    using one every examples by blast
qed

text \<open>The \<open>SI\<close> of a sample row, padded with a space and a no-break space, counts; \<open>no\<close>
  does not.\<close>

theorem marketingYes_counts_consent_witness:
  "qualifying sampleCasing sampleHeader rowD \<and>
   consentText sampleCasing sampleHeader rowD \<in> {lit ''true'', lit ''1'', lit ''yes'', lit ''si''} \<and>
   n_marketingYes
     (processRow sampleCasing (map (normalizeHeader sampleCasing) sampleHeader) tally0 rowD) =
     n_marketingYes tally0 + 1 \<and>
   consentText sampleCasing sampleHeader rowB \<notin> {lit ''true'', lit ''1'', lit ''yes'', lit ''si''} \<and>
   n_marketingYes
     (processRow sampleCasing (map (normalizeHeader sampleCasing) sampleHeader) tally0 rowB) =
     n_marketingYes tally0 \<and>
   length (filter (\<lambda>r. qualifying sampleCasing (hd sampleRows) r \<and>
                        consentText sampleCasing (hd sampleRows) r \<in>
                          {lit ''true'', lit ''1'', lit ''yes'', lit ''si''})
             (drop 1 sampleRows)) = 4 \<and>
   asciiFaithful sampleCasing \<and>
   isTruthy sampleCasing (JStr (lit '' SI '')) \<and> \<not> isTruthy sampleCasing (JStr (lit ''false''))"
proof -
  note d = marketingYes_counts_consent [of sampleCasing sampleHeader tally0 rowD sampleRows "lit ''t''"]
  note b = marketingYes_counts_consent [of sampleCasing sampleHeader tally0 rowB sampleRows "lit ''t''"]
  have one: "n_marketingYes
     (processRow sampleCasing (map (normalizeHeader sampleCasing) sampleHeader) tally0 rowD) =
     n_marketingYes tally0 + 1"
    using d sample_qualifying(5) sample_consent(1) by simp
  have none: "n_marketingYes
     (processRow sampleCasing (map (normalizeHeader sampleCasing) sampleHeader) tally0 rowB) =
     n_marketingYes tally0"
    using b sample_consent(2) by simp
  have every: "length (filter (\<lambda>r. qualifying sampleCasing (hd sampleRows) r \<and>
                        consentText sampleCasing (hd sampleRows) r \<in>
                          {lit ''true'', lit ''1'', lit ''yes'', lit ''si''})
             (drop 1 sampleRows)) = 4"
    using d sample_marketingYes by simp
  have examples: "isTruthy sampleCasing (JStr (lit '' SI ''))"
    "\<not> isTruthy sampleCasing (JStr (lit ''false''))"
    using d sampleCasing_faithful by blast+
  show ?thesis
    using one none every examples sample_qualifying(5) sample_consent sampleCasing_faithful
    by blast
qed

text \<open>
  Claim C6. The country code of a qualifying row is trimmed and upper-cased before it is
  counted. So two codes give the same key when each is a text padded with white space
  and the two texts differ only in letter case. A row whose trimmed, upper-cased code is
  empty or \<open>UNKNOWN\<close> increments \<open>unknownCount\<close> and leaves the country counts alone;
  any other row increments the count of its key only. In the summary, every country
  entry counts exactly the qualifying rows with its key, and \<open>unknownCount\<close> the
  qualifying rows with an empty or \<open>UNKNOWN\<close> key. The case mappings are those of the
  runtime, of which only their effect on ASCII text is assumed.
\<close>

theorem country_keys_and_buckets:
  "asciiFaithful R \<longrightarrow>
   (list_all isSpace wa \<and> list_all isSpace wb \<and> list_all isSpace wc \<and> list_all isSpace wd \<and>
    solid a \<and> solid b \<and> sameLetters R a b \<and>
    fieldText R header ra (lit ''ip_country'') = wa @ a @ wb \<and>
    fieldText R header rb (lit ''ip_country'') = wc @ b @ wd \<longrightarrow>
      countryOf R (map (normalizeHeader R) header) ra = toUpperCase R a \<and>
      countryOf R (map (normalizeHeader R) header) rb =
        countryOf R (map (normalizeHeader R) header) ra) \<and>
   (qualifying R header ru \<and>
    (countryKey R header ru = [] \<or> countryKey R header ru = lit ''UNKNOWN'') \<longrightarrow>
      n_unknownCount (processRow R (map (normalizeHeader R) header) t ru) = n_unknownCount t + 1 \<and>
      countryCounts (processRow R (map (normalizeHeader R) header) t ru) = countryCounts t) \<and>
   (qualifying R header rc \<and> countryKey R header rc \<noteq> [] \<and>
    countryKey R header rc \<noteq> lit ''UNKNOWN'' \<longrightarrow>
      n_unknownCount (processRow R (map (normalizeHeader R) header) t rc) = n_unknownCount t \<and>
      getCount (countryCounts (processRow R (map (normalizeHeader R) header) t rc)) k =
        (if k = countryKey R header rc then getCount (countryCounts t) k + 1
         else getCount (countryCounts t) k)) \<and>
   (\<forall>c \<in> set (countries (summarize R rows stamp)).
      count c = length (filter (\<lambda>r. qualifying R (hd rows) r \<and>
                                     countryKey R (hd rows) r = code c) (drop 1 rows))) \<and>
   unknownCount (summarize R rows stamp) =
     length (filter (\<lambda>r. qualifying R (hd rows) r \<and>
                          (countryKey R (hd rows) r = [] \<or>
                           countryKey R (hd rows) r = lit ''UNKNOWN'')) (drop 1 rows))"
proof
  assume af: "asciiFaithful R"
  let ?hs = "map (normalizeHeader R) header"
  let ?h = "map (normalizeHeader R) (hd rows)"
  let ?t = "foldl (processRow R ?h) tally0 (drop 1 rows)"
  have variants: "countryOf R ?hs ra = toUpperCase R a \<and> countryOf R ?hs rb = countryOf R ?hs ra"
    if sp: "list_all isSpace wa" "list_all isSpace wb" "list_all isSpace wc" "list_all isSpace wd"
      and so: "solid a" "solid b" and sl: "sameLetters R a b"
      and fa: "fieldText R header ra (lit ''ip_country'') = wa @ a @ wb"
      and fb: "fieldText R header rb (lit ''ip_country'') = wc @ b @ wd"
    using padded_field_key [OF fa sp(1,2) so(1)]
      padded_field_key [OF fb sp(3,4) so(2)] sl
    by (simp add: sameLetters_def)
  have unknown: "n_unknownCount (processRow R ?hs t ru) = n_unknownCount t + 1 \<and>
      countryCounts (processRow R ?hs t ru) = countryCounts t"
    if "qualifying R header ru"
      "countryKey R header ru = [] \<or> countryKey R header ru = lit ''UNKNOWN''"
    using that unknown_iff [OF af, of header ru]
    by (auto simp: processRow_unknownCount processRow_countryCounts)
  have named: "n_unknownCount (processRow R ?hs t rc) = n_unknownCount t \<and>
      getCount (countryCounts (processRow R ?hs t rc)) k =
        (if k = countryKey R header rc then getCount (countryCounts t) k + 1
         else getCount (countryCounts t) k)"
    if "qualifying R header rc" "countryKey R header rc \<noteq> []"
      "countryKey R header rc \<noteq> lit ''UNKNOWN''"
    using that named_key [OF af that(2)]
    by (simp add: processRow_unknownCount processRow_countryCounts getCount_setProp)
  have same_rows: "(qualifying R (hd rows) r \<and> countryOf R ?h r = key) =
      (qualifying R (hd rows) r \<and> countryKey R (hd rows) r = key)"
    if "key \<noteq> []" "key \<noteq> lit ''UNKNOWN''" for r key
    using that countryOf_key [OF af, of "hd rows" r] by auto
  have buckets: "count c = length (filter (\<lambda>r. qualifying R (hd rows) r \<and>
                                     countryKey R (hd rows) r = code c) (drop 1 rows))"
    if c: "c \<in> set (countries (summarize R rows stamp))" for c
  proof -
    have ne: "rows \<noteq> []"
      using c by (auto simp: summarize_Nil emptySummary_def)
    then have mem: "c \<in> set (countriesOf (countryCounts ?t))"
      using c by (simp add: summarize_fields)
    have dist: "distinct (map fst (countryCounts ?t))"
      by (rule loop_distinct) (simp add: tally0_def)
    have "code c \<in> set (map code (countriesOf (countryCounts ?t)))"
      using mem by simp
    then have "code c \<in> fst ` set (countryCounts ?t)"
      using mset_eq_setD [OF codes_countriesOf [of "countryCounts ?t"]] by simp
    then have key: "code c \<noteq> []" "code c \<noteq> lit ''UNKNOWN''"
      unfolding loop_keys by (simp_all add: tally0_def)
    then have "count c = length (filter (\<lambda>r. qualifying R (hd rows) r \<and>
                                     countryOf R ?h r = code c) (drop 1 rows))"
      using entry_count [OF dist mem] loop_getCount [of R "hd rows" tally0 "drop 1 rows" "code c"]
      by (simp add: tally0_def getCount_def)
    then show ?thesis
      by (simp add: same_rows [OF key])
  qed
  have unk: "unknownCount (summarize R rows stamp) =
     length (filter (\<lambda>r. qualifying R (hd rows) r \<and>
                          (countryKey R (hd rows) r = [] \<or>
                           countryKey R (hd rows) r = lit ''UNKNOWN'')) (drop 1 rows))"
  proof (cases "rows = []")
    case True
    then show ?thesis by (simp add: summarize_Nil emptySummary_def)
  next
    case False
    then show ?thesis
      by (simp add: summarize_fields loop_unknownCount tally0_def unknown_iff [OF af])
  qed
  show "(list_all isSpace wa \<and> list_all isSpace wb \<and> list_all isSpace wc \<and> list_all isSpace wd \<and>
    solid a \<and> solid b \<and> sameLetters R a b \<and>
    fieldText R header ra (lit ''ip_country'') = wa @ a @ wb \<and>
    fieldText R header rb (lit ''ip_country'') = wc @ b @ wd \<longrightarrow>
      countryOf R ?hs ra = toUpperCase R a \<and> countryOf R ?hs rb = countryOf R ?hs ra) \<and>
   (qualifying R header ru \<and>
    (countryKey R header ru = [] \<or> countryKey R header ru = lit ''UNKNOWN'') \<longrightarrow>
      n_unknownCount (processRow R ?hs t ru) = n_unknownCount t + 1 \<and>
      countryCounts (processRow R ?hs t ru) = countryCounts t) \<and>
   (qualifying R header rc \<and> countryKey R header rc \<noteq> [] \<and>
    countryKey R header rc \<noteq> lit ''UNKNOWN'' \<longrightarrow>
      n_unknownCount (processRow R ?hs t rc) = n_unknownCount t \<and>
      getCount (countryCounts (processRow R ?hs t rc)) k =
        (if k = countryKey R header rc then getCount (countryCounts t) k + 1
         else getCount (countryCounts t) k)) \<and>
   (\<forall>c \<in> set (countries (summarize R rows stamp)).
      count c = length (filter (\<lambda>r. qualifying R (hd rows) r \<and>
                                     countryKey R (hd rows) r = code c) (drop 1 rows))) \<and>
   unknownCount (summarize R rows stamp) =
     length (filter (\<lambda>r. qualifying R (hd rows) r \<and>
                          (countryKey R (hd rows) r = [] \<or>
                           countryKey R (hd rows) r = lit ''UNKNOWN'')) (drop 1 rows))"
    using variants unknown named buckets unk by blast
qed

text \<open>The sample rows: \<open>MX\<close> and \<open>mx\<close> behind a no-break space share a key, the two
  accented letters share a bucket, a row without country is unknown.\<close>

theorem country_keys_and_buckets_witness:
  "asciiFaithful sampleCasing \<and>
   countryOf sampleCasing (map (normalizeHeader sampleCasing) sampleHeader) rowB = lit ''MX'' \<and>
   countryOf sampleCasing (map (normalizeHeader sampleCasing) sampleHeader) rowA =
     countryOf sampleCasing (map (normalizeHeader sampleCasing) sampleHeader) rowB \<and>
   n_unknownCount
     (processRow sampleCasing (map (normalizeHeader sampleCasing) sampleHeader) tally0 rowC) =
     n_unknownCount tally0 + 1 \<and>
   countryCounts
     (processRow sampleCasing (map (normalizeHeader sampleCasing) sampleHeader) tally0 rowC) =
     countryCounts tally0 \<and>
   n_unknownCount
     (processRow sampleCasing (map (normalizeHeader sampleCasing) sampleHeader) tally0 rowD) =
     n_unknownCount tally0 \<and>
   getCount (countryCounts
     (processRow sampleCasing (map (normalizeHeader sampleCasing) sampleHeader) tally0 rowD))
     (lit ''US'') = getCount (countryCounts tally0) (lit ''US'') + 1 \<and>
   \<lparr>code = [0xC9], count = 2\<rparr> \<in> set (countries (summarize sampleCasing sampleRows (lit ''t''))) \<and>
   length (filter (\<lambda>r. qualifying sampleCasing (hd sampleRows) r \<and>
                        countryKey sampleCasing (hd sampleRows) r = [0xC9])
             (drop 1 sampleRows)) = 2 \<and>
   length (filter (\<lambda>r. qualifying sampleCasing (hd sampleRows) r \<and>
                        (countryKey sampleCasing (hd sampleRows) r = [] \<or>
                         countryKey sampleCasing (hd sampleRows) r = lit ''UNKNOWN''))
             (drop 1 sampleRows)) = 2"
proof -
  note inst = country_keys_and_buckets [of sampleCasing "[0xA0]" "lit '' ''" "[]" "[]" "lit ''mx''" "lit ''MX''"
      sampleHeader rowB rowA rowC tally0 rowD "lit ''US''" sampleRows "lit ''t''"]
  note af = sampleCasing_faithful
  have mem: "\<lparr>code = [0xC9], count = 2\<rparr> \<in>
      set (countries (summarize sampleCasing sampleRows (lit ''t'')))"
    by (simp add: sample_countries)
  from inst af have variants:
    "countryOf sampleCasing (map (normalizeHeader sampleCasing) sampleHeader) rowB =
       toUpperCase sampleCasing (lit ''mx'') \<and>
     countryOf sampleCasing (map (normalizeHeader sampleCasing) sampleHeader) rowA =
       countryOf sampleCasing (map (normalizeHeader sampleCasing) sampleHeader) rowB"
    using sample_variants(1-8) by blast
  from inst af have unknown:
    "n_unknownCount
       (processRow sampleCasing (map (normalizeHeader sampleCasing) sampleHeader) tally0 rowC) =
       n_unknownCount tally0 + 1 \<and>
     countryCounts
       (processRow sampleCasing (map (normalizeHeader sampleCasing) sampleHeader) tally0 rowC) =
       countryCounts tally0"
    using sample_qualifying(4) sample_countryKey(1) by blast
  from inst af have named:
    "n_unknownCount
       (processRow sampleCasing (map (normalizeHeader sampleCasing) sampleHeader) tally0 rowD) =
       n_unknownCount tally0 \<and>
     getCount (countryCounts
       (processRow sampleCasing (map (normalizeHeader sampleCasing) sampleHeader) tally0 rowD))
       (lit ''US'') = getCount (countryCounts tally0) (lit ''US'') + 1"
    using sample_qualifying(5) sample_countryKey(2,3,4) by simp
  from inst af mem have bucket:
    "count \<lparr>code = [0xC9], count = 2\<rparr> =
       length (filter (\<lambda>r. qualifying sampleCasing (hd sampleRows) r \<and>
                 countryKey sampleCasing (hd sampleRows) r = code \<lparr>code = [0xC9], count = 2\<rparr>)
               (drop 1 sampleRows))"
    by blast
  from inst af have unk:
    "unknownCount (summarize sampleCasing sampleRows (lit ''t'')) =
       length (filter (\<lambda>r. qualifying sampleCasing (hd sampleRows) r \<and>
                 (countryKey sampleCasing (hd sampleRows) r = [] \<or>
                  countryKey sampleCasing (hd sampleRows) r = lit ''UNKNOWN''))
               (drop 1 sampleRows))"
    by blast
  show ?thesis
    using af variants unknown named mem bucket unk
    by (simp add: sample_variants(9) sample_unknownCount)
qed

text \<open>
  Claim C7. In every summary the \<open>countries\<close> list is sorted by non-increasing count, has
  one entry for each distinct key, other than the empty one and \<open>UNKNOWN\<close>, met on a
  qualifying row, and \<open>topCountry\<close> is its first entry, or \<open>null\<close> when it is empty. The
  list depends on the rows only, not on when the summary is built.
\<close>

theorem countries_sorted_one_per_code:
  "sorted_wrt (\<lambda>a b. count b \<le> count a) (countries (summarize R rows stamp)) \<and>
   distinct (map code (countries (summarize R rows stamp))) \<and>
   set (map code (countries (summarize R rows stamp))) =
     {k. k \<noteq> [] \<and> k \<noteq> lit ''UNKNOWN'' \<and>
         (\<exists>r \<in> set (drop 1 rows).
            qualifying R (hd rows) r \<and>
            countryOf R (map (normalizeHeader R) (hd rows)) r = k)} \<and>
   topCountry (summarize R rows stamp) =
     (case countries (summarize R rows stamp) of [] \<Rightarrow> None | c # _ \<Rightarrow> Some c) \<and>
   countries (summarize R rows stamp') = countries (summarize R rows stamp)"
proof (cases "rows = []")
  case True
  then show ?thesis by (simp add: summarize_Nil emptySummary_def)
next
  case False
  let ?h = "map (normalizeHeader R) (hd rows)"
  let ?t = "foldl (processRow R ?h) tally0 (drop 1 rows)"
  have cs: "countries (summarize R rows stamp) = countriesOf (countryCounts ?t)"
    and cs': "countries (summarize R rows stamp') = countriesOf (countryCounts ?t)"
    using False by (simp_all add: summarize_fields)
  have top: "topCountry (summarize R rows stamp) =
     (case countries (summarize R rows stamp) of [] \<Rightarrow> None | c # _ \<Rightarrow> Some c)"
    using False by (simp add: summarize_def Let_def)
  have "distinct (map fst (countryCounts ?t))"
    by (rule loop_distinct) (simp add: tally0_def)
  then have dist: "distinct (map code (countriesOf (countryCounts ?t)))"
    using codes_countriesOf [of "countryCounts ?t"] by (metis mset_eq_imp_distinct_iff)
  have "set (map code (countriesOf (countryCounts ?t))) = set (map fst (countryCounts ?t))"
    using codes_countriesOf [of "countryCounts ?t"] by (rule mset_eq_setD)
  then have keys: "set (map code (countriesOf (countryCounts ?t))) =
     {k. k \<noteq> [] \<and> k \<noteq> lit ''UNKNOWN'' \<and>
         (\<exists>r \<in> set (drop 1 rows). qualifying R (hd rows) r \<and> countryOf R ?h r = k)}"
    using loop_keys [of R "hd rows" tally0 "drop 1 rows"] by (simp add: tally0_def)
  show ?thesis
    unfolding cs cs' using sorted_countriesOf dist keys top [unfolded cs] by simp
qed

text \<open>The sample sheet: \<open>MX\<close>, then the accented capital, then \<open>US\<close>.\<close>

theorem countries_sorted_one_per_code_witness:
  "sorted_wrt (\<lambda>a b. count b \<le> count a)
     [\<lparr>code = lit ''MX'', count = 2\<rparr>, \<lparr>code = [0xC9], count = 2\<rparr>,
      \<lparr>code = lit ''US'', count = 1\<rparr>] \<and>
   distinct (map code (countries (summarize sampleCasing sampleRows (lit ''t'')))) \<and>
   set (map code (countries (summarize sampleCasing sampleRows (lit ''t'')))) =
     {k. k \<noteq> [] \<and> k \<noteq> lit ''UNKNOWN'' \<and>
         (\<exists>r \<in> set (drop 1 sampleRows).
            qualifying sampleCasing (hd sampleRows) r \<and>
            countryOf sampleCasing (map (normalizeHeader sampleCasing) (hd sampleRows)) r = k)} \<and>
   topCountry (summarize sampleCasing sampleRows (lit ''t'')) =
     Some \<lparr>code = lit ''MX'', count = 2\<rparr> \<and>
   countries (summarize sampleCasing sampleRows (lit ''u'')) =
     countries (summarize sampleCasing sampleRows (lit ''t''))"
proof -
  note inst = countries_sorted_one_per_code [of sampleCasing sampleRows "lit ''t''" "lit ''u''"]
  have "sorted_wrt (\<lambda>a b. count b \<le> count a)
     [\<lparr>code = lit ''MX'', count = 2\<rparr>, \<lparr>code = [0xC9], count = 2\<rparr>,
      \<lparr>code = lit ''US'', count = 1\<rparr>]"
    using inst unfolding sample_countries by blast
  moreover have "topCountry (summarize sampleCasing sampleRows (lit ''t'')) =
     Some \<lparr>code = lit ''MX'', count = 2\<rparr>"
    using inst unfolding sample_countries by simp
  ultimately show ?thesis
    using inst by blast
qed

text \<open>
  Claim C8. In every summary \<open>marketingRate\<close> is 0 when \<open>total\<close> is 0, and when \<open>total\<close>
  is positive it is the binary64 quotient \<open>marketingYes / total\<close>: the number the
  division of the language yields, which differs from the quotient of the two integers
  by no more than its \<open>2^53\<close>-th part.
\<close>

theorem marketingRate_quotient:
  "(summary.total (summarize R rows stamp) = 0 \<longrightarrow> marketingRate (summarize R rows stamp) = 0) \<and>
   (0 < summary.total (summarize R rows stamp) \<longrightarrow>
      marketingRate (summarize R rows stamp) =
        js_divide (marketingYes (summarize R rows stamp))
          (summary.total (summarize R rows stamp)) \<and>
      \<bar>marketingRate (summarize R rows stamp) -
        of_nat (marketingYes (summarize R rows stamp)) /
        of_nat (summary.total (summarize R rows stamp))\<bar> \<le>
        of_nat (marketingYes (summarize R rows stamp)) /
        of_nat (summary.total (summarize R rows stamp)) / 2 ^ 53)"
proof -
  have zero: "marketingRate (summarize R rows stamp) = 0"
    if "summary.total (summarize R rows stamp) = 0"
    using that by (simp add: summarize_def emptySummary_def Let_def split: if_splits)
  have quotient: "marketingRate (summarize R rows stamp) =
      js_divide (marketingYes (summarize R rows stamp)) (summary.total (summarize R rows stamp))"
    if "0 < summary.total (summarize R rows stamp)"
    using that by (simp add: summarize_def emptySummary_def Let_def split: if_splits)
  show ?thesis
    using zero quotient
      js_divide_rounds [of "marketingYes (summarize R rows stamp)"
        "summary.total (summarize R rows stamp)"]
    by auto
qed

text \<open>The sample sheet has four consents in seven records: the rate is the binary64 number
  nearest to 4/7. No rows at all give rate 0.\<close>

theorem marketingRate_quotient_witness:
  "0 < summary.total (summarize sampleCasing sampleRows (lit ''t'')) \<and>
   marketingRate (summarize sampleCasing sampleRows (lit ''t'')) =
     2573485501354569 / 4503599627370496 \<and>
   \<bar>marketingRate (summarize sampleCasing sampleRows (lit ''t'')) - 4 / 7\<bar> \<le> 4 / 7 / 2 ^ 53 \<and>
   summary.total (summarize sampleCasing [] (lit ''t'')) = 0 \<and>
   marketingRate (summarize sampleCasing [] (lit ''t'')) = 0"
proof -
  have empty: "summary.total (summarize sampleCasing [] (lit ''t'')) = 0"
    by (simp add: summarize_Nil emptySummary_def)
  have double: "js_divide 4 7 = 2573485501354569 / 4503599627370496"
    by code_simp
  note full = marketingRate_quotient [of sampleCasing sampleRows "lit ''t''"]
  note none = marketingRate_quotient [of sampleCasing "[]" "lit ''t''"]
  have pos: "0 < summary.total (summarize sampleCasing sampleRows (lit ''t''))"
    by (simp add: sample_total)
  from full pos have quotient: "marketingRate (summarize sampleCasing sampleRows (lit ''t'')) =
      js_divide (marketingYes (summarize sampleCasing sampleRows (lit ''t'')))
        (summary.total (summarize sampleCasing sampleRows (lit ''t'')))"
    by blast
  from full pos have bound: "\<bar>marketingRate (summarize sampleCasing sampleRows (lit ''t'')) -
      of_nat (marketingYes (summarize sampleCasing sampleRows (lit ''t''))) /
      of_nat (summary.total (summarize sampleCasing sampleRows (lit ''t'')))\<bar> \<le>
      of_nat (marketingYes (summarize sampleCasing sampleRows (lit ''t''))) /
      of_nat (summary.total (summarize sampleCasing sampleRows (lit ''t''))) / 2 ^ 53"
    by blast
  have rate: "marketingRate (summarize sampleCasing sampleRows (lit ''t'')) = js_divide 4 7"
    using quotient by (simp add: sample_total sample_marketingYes)
  have close: "\<bar>marketingRate (summarize sampleCasing sampleRows (lit ''t'')) - 4 / 7\<bar>
      \<le> 4 / 7 / 2 ^ 53"
    using bound by (simp add: sample_total sample_marketingYes)
  have "marketingRate (summarize sampleCasing [] (lit ''t'')) = 0"
    using none empty by blast
  then show ?thesis
    using pos empty close rate [unfolded double] by blast
qed

text \<open>
  Claim C10. Field extraction yields the empty string whenever the header lacks the
  column, the column lies beyond the end of the row, or the cell is falsy
  (\<open>undefined\<close>, \<open>null\<close>, \<open>false\<close>, the empty string); and whatever rows a fetch
  delivers, \<open>buildSummary\<close> returns their summary, never an error.
\<close>

theorem ragged_rows_never_fail:
  "(name \<notin> set headers \<or> int (length row) \<le> indexOf headers name \<or>
    \<not> truthy (js_index row (indexOf headers name)) \<longrightarrow>
      getValue headers row name = JStr []) \<and>
   (\<not> cacheFresh (clock e) (cache st) \<and> fst (fetchSheetRows e st) = Inr rows \<longrightarrow>
      fst (buildSummary R e st) = Inr (summarize R rows (isoNow e)))"
proof -
  have "getValue headers row name = JStr []"
    if "name \<notin> set headers \<or> int (length row) \<le> indexOf headers name \<or>
        \<not> truthy (js_index row (indexOf headers name))"
    using that indexOf_absent [of headers name]
    by (auto simp: getValue_def Let_def js_or_def js_index_def)
  moreover have "fst (buildSummary R e st) = Inr (summarize R rows (isoNow e))"
    if "\<not> cacheFresh (clock e) (cache st)" "fst (fetchSheetRows e st) = Inr rows"
    using that by (cases "fetchSheetRows e st") (simp add: buildSummary_miss)
  ultimately show ?thesis by blast
qed

text \<open>The short sample row has no country column; the sample fetch yields a summary.\<close>

theorem ragged_rows_never_fail_witness:
  "int (length rowShort) \<le>
     indexOf (map (normalizeHeader sampleCasing) sampleHeader) (lit ''ip_country'') \<and>
   getValue (map (normalizeHeader sampleCasing) sampleHeader) rowShort (lit ''ip_country'') =
     JStr [] \<and>
   \<not> cacheFresh (clock sampleEnv) (cache server0) \<and>
   fst (fetchSheetRows sampleEnv server0) = Inr sampleRows \<and>
   fst (buildSummary sampleCasing sampleEnv server0) =
     Inr (summarize sampleCasing sampleRows (isoNow sampleEnv))"
proof -
  have short: "int (length rowShort) \<le>
     indexOf (map (normalizeHeader sampleCasing) sampleHeader) (lit ''ip_country'')"
    by (simp add: sample_short rowShort_def)
  have miss: "\<not> cacheFresh (clock sampleEnv) (cache server0)"
    by (simp add: cacheFresh_def server0_def)
  have fetched: "fst (fetchSheetRows sampleEnv server0) = Inr sampleRows"
    by (simp add: fetchSheetRows_def getSheetTitle_def sampleEnv_def server0_def
          firstTitle_def js_or_def Let_def lit_def)
  show ?thesis
    using ragged_rows_never_fail [of "lit ''ip_country''" "map (normalizeHeader sampleCasing) sampleHeader" rowShort
        sampleEnv server0 sampleRows sampleCasing]
      short miss fetched
    by blast
qed

text \<open>
  Claim C2. A call of \<open>buildSummary\<close> made while a cache entry exists and less than 60
  seconds have passed since its \<open>fetchedAt\<close> returns the cached summary and leaves the
  whole state as it was: the cache slot, the title cache and the counts of requests sent
  out. Consequently, when a call that had to fetch succeeds and a second call follows
  within the window, the second returns the same summary (so the same \<open>updatedAt\<close>), and
  the two calls together issue exactly one value request.
\<close>

theorem fresh_cache_served_untouched:
  "(data (cache st) = Some s \<and> clock e - fetchedAt (cache st) < 60 * 1000 \<longrightarrow>
      buildSummary R e st = (Inr s, st)) \<and>
   (\<not> cacheFresh (clock e0) (cache st0) \<and> buildSummary R e0 st0 = (Inr s0, st) \<and>
    clock e - clock e0 < 60 * 1000 \<longrightarrow>
      buildSummary R e st = (Inr s0, st) \<and> valueRequests st = valueRequests st0 + 1)"
proof -
  have hit: "buildSummary R e st = (Inr s, st)"
    if "data (cache st) = Some s" "clock e - fetchedAt (cache st) < 60 * 1000"
    using that by (simp add: buildSummary_hit cacheFresh_def CACHE_TTL_MS_def)
  have twice: "buildSummary R e st = (Inr s0, st) \<and> valueRequests st = valueRequests st0 + 1"
    if miss: "\<not> cacheFresh (clock e0) (cache st0)"
      and first: "buildSummary R e0 st0 = (Inr s0, st)"
      and near: "clock e - clock e0 < 60 * 1000"
  proof -
    obtain r st1 where f: "fetchSheetRows e0 st0 = (r, st1)"
      by (cases "fetchSheetRows e0 st0")
    from first obtain rows where r: "r = Inr rows"
      and s0: "s0 = summarize R rows (isoNow e0)"
      and st: "st = st1\<lparr>cache := \<lparr>data = Some s0, fetchedAt = clock e0\<rparr>\<rparr>"
      unfolding buildSummary_miss [OF miss] f by (cases r) auto
    have "cacheFresh (clock e) (cache st)" "data (cache st) = Some s0"
      using near by (simp_all add: st cacheFresh_def CACHE_TTL_MS_def)
    then have "buildSummary R e st = (Inr s0, st)"
      by (rule buildSummary_hit)
    moreover have "valueRequests st = valueRequests st0 + 1"
      using fetchSheetRows_requests [OF f [unfolded r]] by (simp add: st)
    ultimately show ?thesis by simp
  qed
  show ?thesis using hit twice by blast
qed

text \<open>The sample process, asked again ten seconds after its first fetch.\<close>

theorem fresh_cache_served_untouched_witness:
  "data (cache servedOnce) = Some (summarize sampleCasing sampleRows (isoNow sampleEnv)) \<and>
   clock laterEnv - fetchedAt (cache servedOnce) < 60 * 1000 \<and>
   \<not> cacheFresh (clock sampleEnv) (cache server0) \<and>
   buildSummary sampleCasing sampleEnv server0 =
     (Inr (summarize sampleCasing sampleRows (isoNow sampleEnv)), servedOnce) \<and>
   clock laterEnv - clock sampleEnv < 60 * 1000 \<and>
   buildSummary sampleCasing laterEnv servedOnce =
     (Inr (summarize sampleCasing sampleRows (isoNow sampleEnv)), servedOnce) \<and>
   valueRequests servedOnce = valueRequests server0 + 1"
proof -
  have entry: "data (cache servedOnce) = Some (summarize sampleCasing sampleRows (isoNow sampleEnv))"
    by (simp add: servedOnce_def sampleEnv_def)
  have near: "clock laterEnv - fetchedAt (cache servedOnce) < 60 * 1000"
    "clock laterEnv - clock sampleEnv < 60 * 1000"
    by (simp_all add: servedOnce_def laterEnv_def sampleEnv_def)
  have miss: "\<not> cacheFresh (clock sampleEnv) (cache server0)"
    by (simp add: cacheFresh_def server0_def)
  show ?thesis
    using fresh_cache_served_untouched [of servedOnce "summarize sampleCasing sampleRows (isoNow sampleEnv)" laterEnv
        sampleCasing sampleEnv server0 "summarize sampleCasing sampleRows (isoNow sampleEnv)"]
      entry near miss sample_first_call
    by blast
qed

text \<open>
  Claim C3. When \<open>buildSummary\<close> has to fetch and the fetch fails, the failure reaches
  the caller as it is, the cache slot (\<open>data\<close> and \<open>fetchedAt\<close>) is what it was before
  the call, and the handler answers 500 with the body
  \<open>{error: "Failed to load sheet data"}\<close>; the upstream error goes to the console only.
\<close>

theorem fetch_failure_keeps_cache:
  "\<not> cacheFresh (clock e) (cache st) \<and> fst (fetchSheetRows e st) = Inl err \<longrightarrow>
     fst (buildSummary R e st) = Inl err \<and>
     cache (snd (buildSummary R e st)) = cache st \<and>
     fst (apiSummary R e st) =
       \<lparr>status = 500, body = ErrorJson (lit ''Failed to load sheet data'')\<rparr> \<and>
     cache (snd (apiSummary R e st)) = cache st \<and>
     console (snd (apiSummary R e st)) =
       console st @ [(lit ''Failed to load sheet data'', err)]"
proof (intro impI, elim conjE)
  assume miss: "\<not> cacheFresh (clock e) (cache st)"
    and fail: "fst (fetchSheetRows e st) = Inl err"
  obtain st1 where f: "fetchSheetRows e st = (Inl err, st1)"
    using fail by (cases "fetchSheetRows e st") simp
  have st1: "cache st1 = cache st" "console st1 = console st"
    using fetchSheetRows_cache [of e st] fetchSheetRows_console [of e st] by (simp_all add: f)
  have b: "buildSummary R e st = (Inl err, st1)"
    by (simp add: buildSummary_miss [OF miss] f)
  show "fst (buildSummary R e st) = Inl err \<and>
     cache (snd (buildSummary R e st)) = cache st \<and>
     fst (apiSummary R e st) =
       \<lparr>status = 500, body = ErrorJson (lit ''Failed to load sheet data'')\<rparr> \<and>
     cache (snd (apiSummary R e st)) = cache st \<and>
     console (snd (apiSummary R e st)) =
       console st @ [(lit ''Failed to load sheet data'', err)]"
    by (simp add: apiSummary_def b st1)
qed

text \<open>The sample process with a stale entry, when the value request is refused.\<close>

theorem fetch_failure_keeps_cache_witness:
  "\<not> cacheFresh (clock failingEnv) (cache servedOnce) \<and>
   fst (fetchSheetRows failingEnv servedOnce) = Inl (Rejected ''quota exceeded'') \<and>
   fst (buildSummary sampleCasing failingEnv servedOnce) = Inl (Rejected ''quota exceeded'') \<and>
   cache (snd (buildSummary sampleCasing failingEnv servedOnce)) = cache servedOnce \<and>
   fst (apiSummary sampleCasing failingEnv servedOnce) =
     \<lparr>status = 500, body = ErrorJson (lit ''Failed to load sheet data'')\<rparr> \<and>
   cache (snd (apiSummary sampleCasing failingEnv servedOnce)) = cache servedOnce \<and>
   console (snd (apiSummary sampleCasing failingEnv servedOnce)) =
     console servedOnce @ [(lit ''Failed to load sheet data'', Rejected ''quota exceeded'')]"
proof -
  have stale: "\<not> cacheFresh (clock failingEnv) (cache servedOnce)"
    by (simp add: cacheFresh_def CACHE_TTL_MS_def failingEnv_def servedOnce_def)
  have refused: "fst (fetchSheetRows failingEnv servedOnce) = Inl (Rejected ''quota exceeded'')"
    by (simp add: fetchSheetRows_def getSheetTitle_def failingEnv_def servedOnce_def Let_def
          lit_def)
  show ?thesis
    using fetch_failure_keeps_cache [of failingEnv servedOnce "Rejected ''quota exceeded''" sampleCasing] stale refused
    by blast
qed

text \<open>
  Claim C4, as amended. Once \<open>getSheetTitle\<close> has returned a non-empty title, every later
  call returns that title, whatever the outside world would answer, and leaves the state
  as it is: no further metadata request is sent. When it has returned no title, nothing
  is retained and the next call sends a metadata request again.
\<close>

theorem sheet_title_kept_once_found:
  "(getSheetTitle e st = (Inr t, st1) \<and> truthy t \<longrightarrow> getSheetTitle e' st1 = (Inr t, st1)) \<and>
   (getSheetTitle eu su = (Inr tu, su1) \<and> \<not> truthy tu \<longrightarrow>
      metadataRequests (snd (getSheetTitle eu' su1)) = metadataRequests su1 + 1)"
  by (auto simp: getSheetTitle_def Let_def split: if_splits sum.splits)

text \<open>A title found in one world is returned in another; a missing one is looked up again.\<close>

theorem sheet_title_kept_once_found_witness:
  "getSheetTitle sampleEnv server0 = (Inr (JStr (lit ''Signups'')), titledServer) \<and>
   truthy (JStr (lit ''Signups'')) \<and>
   getSheetTitle untitledEnv titledServer = (Inr (JStr (lit ''Signups'')), titledServer) \<and>
   getSheetTitle untitledEnv server0 = (Inr JNull, server0\<lparr>metadataRequests := 1\<rparr>) \<and>
   \<not> truthy JNull \<and>
   metadataRequests (snd (getSheetTitle sampleEnv (server0\<lparr>metadataRequests := 1\<rparr>))) = 2"
proof -
  have found: "getSheetTitle sampleEnv server0 = (Inr (JStr (lit ''Signups'')), titledServer)"
    by (simp add: getSheetTitle_def sampleEnv_def server0_def titledServer_def firstTitle_def
          js_or_def Let_def lit_def)
  have missing: "getSheetTitle untitledEnv server0 = (Inr JNull, server0\<lparr>metadataRequests := 1\<rparr>)"
    by (simp add: getSheetTitle_def untitledEnv_def sampleEnv_def server0_def firstTitle_def
          js_or_def Let_def)
  have facts: "truthy (JStr (lit ''Signups''))" "\<not> truthy JNull"
    "metadataRequests (server0\<lparr>metadataRequests := 1\<rparr>) + 1 = 2"
    by (simp_all add: lit_def)
  show ?thesis
    using sheet_title_kept_once_found [of sampleEnv server0 "JStr (lit ''Signups'')" titledServer untitledEnv
        untitledEnv server0 JNull "server0\<lparr>metadataRequests := 1\<rparr>" sampleEnv]
      found missing facts
    by metis
qed

text \<open>
  The claim as first stated, that the title cache is filled by the first lookup whatever
  that lookup returned, fails for a spreadsheet that reports no sheets: the first call
  completes with \<open>null\<close> after one metadata request, and the second call sends another.
\<close>

theorem sheet_title_lookup_repeats:
  "fst (getSheetTitle untitledEnv server0) = Inr JNull \<and>
   metadataRequests (snd (getSheetTitle untitledEnv server0)) = 1 \<and>
   metadataRequests
     (snd (getSheetTitle untitledEnv (snd (getSheetTitle untitledEnv server0)))) = 2"
  by (simp add: getSheetTitle_def untitledEnv_def sampleEnv_def server0_def firstTitle_def
        js_or_def Let_def)

end
